theory Spec2Isabelle
  imports Main "HOL-Library.Word" "HOL-Library.Multiset"
begin

chapter \<open>LinkedDeck: stable-selection-sort.cpp\<close>

section \<open>Memory model\<close>

text \<open>
  A pointer is \<open>addr option\<close>: \<open>None\<close> is \<open>nullptr\<close>. The nodes of a deck live in a
  store from addresses to node contents. The sentinel \<open>beforeHeadNode\<close> is a member of
  the C++ object; the model keeps its contents in the same store and records its address
  in the field \<open>beforeHeadNode\<close>, so that \<open>&beforeHeadNode\<close> is a pointer like any
  other (\<open>extractAfter\<close> and \<open>attachAfter\<close> take either kind).

  Reading or writing through a null or dangling pointer is undefined behaviour in C++;
  the model returns \<open>Inl InvalidAccess\<close>. A failing \<open>assert\<close> is \<open>Inl AssertionFailed\<close>.
  A loop that does not return is the value \<open>None\<close> of the option type around the result.

  The address returned by \<open>new\<close> is a parameter of each allocating operation.
  \<open>std::size_t\<close> counters are natural numbers: they count live nodes, which occupy
  distinct storage, so they stay far below \<open>2 ^ 64\<close>.
\<close>

type_synonym addr = nat

datatype error = AssertionFailed | InvalidAccess

text \<open>
  \<open>CardRank\<close> and \<open>CardSuite\<close> are enumerations over \<open>unsigned char\<close>; the code also
  holds values that are no enumerator (\<open>Card{}\<close> is all zero, and the rank loop of
  \<open>generateStandardDeck\<close> ends on \<open>'1'\<close>), so both are bytes.
\<close>

type_synonym CardRank = "8 word"
type_synonym CardSuite = "8 word"

definition TWO :: CardRank where "TWO = 0x32"
definition THREE :: CardRank where "THREE = 0x33"
definition FOUR :: CardRank where "FOUR = 0x34"
definition FIVE :: CardRank where "FIVE = 0x35"
definition SIX :: CardRank where "SIX = 0x36"
definition SEVEN :: CardRank where "SEVEN = 0x37"
definition EIGHT :: CardRank where "EIGHT = 0x38"
definition NINE :: CardRank where "NINE = 0x39"
definition TEN :: CardRank where "TEN = 0x3A"
definition JACK :: CardRank where "JACK = 0x3B"
definition QUEEN :: CardRank where "QUEEN = 0x3C"
definition KING :: CardRank where "KING = 0x3D"
definition ACE :: CardRank where "ACE = 0x3E"

definition SPADE :: CardSuite where "SPADE = 0x53"
definition HEART :: CardSuite where "HEART = 0x48"
definition DIAMOND :: CardSuite where "DIAMOND = 0x44"
definition CLUB :: CardSuite where "CLUB = 0x43"

record Card =
  suite :: CardSuite
  rank :: CardRank

text \<open>\<open>Card::operator==\<close> and \<open>Card::operator<\<close>: the rank alone decides.\<close>

definition card_eq :: "Card \<Rightarrow> Card \<Rightarrow> bool" where
  "card_eq c other = (rank c = rank other)"

definition card_less :: "Card \<Rightarrow> Card \<Rightarrow> bool" where
  "card_less c other = (rank c < rank other)"

text \<open>\<open>Card{}\<close>: value initialisation.\<close>

definition Card_default :: Card where
  "Card_default = \<lparr>suite = 0, rank = 0\<rparr>"

record Node =
  card_v :: Card
  "next" :: "addr option"

record Deck =
  deck_heap :: "addr \<rightharpoonup> Node"
  beforeHeadNode :: addr
  deckSize :: nat

text \<open>\<open>Deck()\<close>, for a deck object whose sentinel lives at \<open>self\<close>.\<close>

definition Deck_new :: "addr \<Rightarrow> Deck" where
  "Deck_new self =
     \<lparr>deck_heap = [self \<mapsto> \<lparr>card_v = Card_default, next = None\<rparr>],
      beforeHeadNode = self, deckSize = 0\<rparr>"

definition deck_size :: "Deck \<Rightarrow> nat" where
  "deck_size d = deckSize d"

definition deck_empty :: "Deck \<Rightarrow> bool" where
  "deck_empty d = (deck_size d = 0)"

section \<open>Iterators\<close>

text \<open>An iterator is the node pointer it wraps.\<close>

definition beforeBegin :: "Deck \<Rightarrow> addr option" where
  "beforeBegin d = Some (beforeHeadNode d)"

definition end_it :: "addr option" where
  "end_it = None"

text \<open>\<open>operator++\<close> and \<open>std::next(it)\<close>: \<open>node = node->next\<close>.\<close>

definition next_it :: "Deck \<Rightarrow> addr option \<Rightarrow> error + addr option" where
  "next_it d it =
     (case it of None \<Rightarrow> Inl InvalidAccess
      | Some a \<Rightarrow> (case deck_heap d a of None \<Rightarrow> Inl InvalidAccess
                   | Some n \<Rightarrow> Inr (next n)))"

definition begin_it :: "Deck \<Rightarrow> error + addr option" where
  "begin_it d = next_it d (beforeBegin d)"

text \<open>\<open>operator*\<close>: \<open>node->card\<close>.\<close>

definition deref :: "Deck \<Rightarrow> addr option \<Rightarrow> error + Card" where
  "deref d it =
     (case it of None \<Rightarrow> Inl InvalidAccess
      | Some a \<Rightarrow> (case deck_heap d a of None \<Rightarrow> Inl InvalidAccess
                   | Some n \<Rightarrow> Inr (card_v n)))"

text \<open>\<open>std::next(it, n)\<close> on a forward iterator: \<open>n\<close> increments; a negative \<open>n\<close> is
  undefined behaviour.\<close>

fun advance :: "Deck \<Rightarrow> addr option \<Rightarrow> nat \<Rightarrow> error + addr option" where
  "advance d it 0 = Inr it"
| "advance d it (Suc n) =
     (case next_it d it of Inl e \<Rightarrow> Inl e | Inr it' \<Rightarrow> advance d it' n)"

definition std_next :: "Deck \<Rightarrow> addr option \<Rightarrow> int \<Rightarrow> error + addr option" where
  "std_next d it n = (if n < 0 then Inl InvalidAccess else advance d it (nat n))"

text \<open>\<open>std::iter_swap(it, jt)\<close>: \<open>swap(*it, *jt)\<close>, that is \<open>tmp = *it; *it = *jt; *jt = tmp\<close>
  on the stored cards; the nodes stay where they are.\<close>

definition store_card :: "addr option \<Rightarrow> Card \<Rightarrow> (addr \<rightharpoonup> Node) \<Rightarrow> error + (addr \<rightharpoonup> Node)" where
  "store_card p c h =
     (case p of None \<Rightarrow> Inl InvalidAccess
      | Some a \<Rightarrow> (case h a of None \<Rightarrow> Inl InvalidAccess
                   | Some n \<Rightarrow> Inr (h(a \<mapsto> n\<lparr>card_v := c\<rparr>))))"

definition iter_swap :: "addr option \<Rightarrow> addr option \<Rightarrow> Deck \<Rightarrow> error + Deck" where
  "iter_swap it jt d =
     (case deref d it of Inl e \<Rightarrow> Inl e | Inr tmp \<Rightarrow>
      (case deref d jt of Inl e \<Rightarrow> Inl e | Inr cj \<Rightarrow>
       (case store_card it cj (deck_heap d) of Inl e \<Rightarrow> Inl e | Inr h1 \<Rightarrow>
        (case store_card jt tmp h1 of Inl e \<Rightarrow> Inl e | Inr h2 \<Rightarrow>
           Inr (d\<lparr>deck_heap := h2\<rparr>)))))"

section \<open>Linking and unlinking\<close>

text \<open>\<open>p->next = q\<close>.\<close>

definition store_next :: "addr option \<Rightarrow> addr option \<Rightarrow> (addr \<rightharpoonup> Node) \<Rightarrow> error + (addr \<rightharpoonup> Node)" where
  "store_next p q h =
     (case p of None \<Rightarrow> Inl InvalidAccess
      | Some a \<Rightarrow> (case h a of None \<Rightarrow> Inl InvalidAccess
                   | Some n \<Rightarrow> Inr (h(a \<mapsto> n\<lparr>next := q\<rparr>))))"

definition attachAfter :: "addr option \<Rightarrow> addr option \<Rightarrow> Deck \<Rightarrow> error + Deck" where
  "attachAfter node nodeToAttach d =
     (if node = None then Inl AssertionFailed
      else (case next_it d node of Inl e \<Rightarrow> Inl e | Inr nx \<Rightarrow>
        (case store_next nodeToAttach nx (deck_heap d) of Inl e \<Rightarrow> Inl e | Inr h1 \<Rightarrow>
          (case store_next node nodeToAttach h1 of Inl e \<Rightarrow> Inl e | Inr h2 \<Rightarrow>
             Inr (d\<lparr>deck_heap := h2\<rparr>)))))"

definition extractAfter :: "addr option \<Rightarrow> Deck \<Rightarrow> error + (addr option \<times> Deck)" where
  "extractAfter node d =
     (if node = None then Inl AssertionFailed
      else (case next_it d node of Inl e \<Rightarrow> Inl e | Inr nodeToExtract \<Rightarrow>
        if nodeToExtract = None then Inl AssertionFailed
        else (case next_it d nodeToExtract of Inl e \<Rightarrow> Inl e | Inr nx \<Rightarrow>
          (case store_next node nx (deck_heap d) of Inl e \<Rightarrow> Inl e | Inr h1 \<Rightarrow>
             Inr (nodeToExtract, d\<lparr>deck_heap := h1\<rparr>)))))"

text \<open>\<open>delete p\<close>: a null pointer is ignored, a live node is released.\<close>

definition delete_node :: "addr option \<Rightarrow> (addr \<rightharpoonup> Node) \<Rightarrow> error + (addr \<rightharpoonup> Node)" where
  "delete_node p h =
     (case p of None \<Rightarrow> Inr h
      | Some a \<Rightarrow> (if a \<in> dom h then Inr (h(a := None)) else Inl InvalidAccess))"

text \<open>\<open>insertAfter\<close>; \<open>new_node\<close> is the address \<open>new Node{card}\<close> returns.\<close>

definition insertAfter :: "addr option \<Rightarrow> Card \<Rightarrow> addr \<Rightarrow> Deck \<Rightarrow> error + Deck" where
  "insertAfter it c new_node d =
     (case attachAfter it (Some new_node)
             (d\<lparr>deck_heap := (deck_heap d)(new_node \<mapsto> \<lparr>card_v = c, next = None\<rparr>)\<rparr>) of
        Inl e \<Rightarrow> Inl e
      | Inr d1 \<Rightarrow> Inr (d1\<lparr>deckSize := deckSize d1 + 1\<rparr>))"

definition eraseAfter :: "addr option \<Rightarrow> Deck \<Rightarrow> error + Deck" where
  "eraseAfter it d =
     (case extractAfter it d of Inl e \<Rightarrow> Inl e
      | Inr (p, d1) \<Rightarrow>
         (case delete_node p (deck_heap d1) of Inl e \<Rightarrow> Inl e
          | Inr h2 \<Rightarrow> Inr (d1\<lparr>deck_heap := h2, deckSize := deckSize d1 - 1\<rparr>)))"

definition pushFront :: "Card \<Rightarrow> addr \<Rightarrow> Deck \<Rightarrow> error + Deck" where
  "pushFront c new_node d = insertAfter (beforeBegin d) c new_node d"

definition popFront :: "Deck \<Rightarrow> error + Deck" where
  "popFront d = eraseAfter (beforeBegin d) d"

section \<open>Traversal\<close>

text \<open>The cards from \<open>it\<close> to \<open>end()\<close>, as \<open>for(; it != end(); ++it)\<close> reads them.\<close>

partial_function (option) traverse_from :: "Deck \<Rightarrow> addr option \<Rightarrow> (error + Card list) option" where
  "traverse_from d it =
     (if it = end_it then Some (Inr [])
      else (case deref d it of Inl e \<Rightarrow> Some (Inl e) | Inr c \<Rightarrow>
        (case next_it d it of Inl e \<Rightarrow> Some (Inl e) | Inr it' \<Rightarrow>
          Option.bind (traverse_from d it')
            (\<lambda>r. Some (case r of Inl e \<Rightarrow> Inl e | Inr cs \<Rightarrow> Inr (c # cs))))))"

definition traverse :: "Deck \<Rightarrow> (error + Card list) option" where
  "traverse d = (case begin_it d of Inl e \<Rightarrow> Some (Inl e) | Inr it \<Rightarrow> traverse_from d it)"

section \<open>shuffle\<close>

text \<open>
  The random source: \<open>gen k (a, b)\<close> is what the \<open>k\<close>-th call
  \<open>distr(generator, param{a, b})\<close> returns. \<open>DifferenceType\<close> is \<open>int\<close>;
  \<open>static_cast<DifferenceType>(size() - 1)\<close> is \<open>int (deck_size d) - 1\<close>, also for an
  empty deck, where the unsigned difference wraps and the cast gives \<open>-1\<close>.
  In the loop \<open>minOffset\<close> counts the calls made so far.
\<close>

partial_function (option) shuffle_loop ::
  "(nat \<Rightarrow> int \<times> int \<Rightarrow> int) \<Rightarrow> nat \<Rightarrow> addr option \<Rightarrow> Deck \<Rightarrow> (error + Deck) option" where
  "shuffle_loop gen minOffset it d =
     (if it = end_it then Some (Inr d)
      else
        (let offset = gen minOffset (int minOffset, int (deck_size d) - 1) in
         (case begin_it d of Inl e \<Rightarrow> Some (Inl e) | Inr b \<Rightarrow>
          (case std_next d b offset of Inl e \<Rightarrow> Some (Inl e) | Inr jt \<Rightarrow>
           (case iter_swap it jt d of Inl e \<Rightarrow> Some (Inl e) | Inr d1 \<Rightarrow>
            (case next_it d1 it of Inl e \<Rightarrow> Some (Inl e) | Inr it' \<Rightarrow>
               shuffle_loop gen (minOffset + 1) it' d1))))))"

definition shuffle :: "(nat \<Rightarrow> int \<times> int \<Rightarrow> int) \<Rightarrow> Deck \<Rightarrow> (error + Deck) option" where
  "shuffle gen d =
     (case begin_it d of Inl e \<Rightarrow> Some (Inl e) | Inr it \<Rightarrow> shuffle_loop gen 0 it d)"

section \<open>stableSelectionSort\<close>

partial_function (option) findBeforeMin_loop ::
  "Deck \<Rightarrow> addr option \<Rightarrow> addr option \<Rightarrow> (error + addr option) option" where
  "findBeforeMin_loop d beforeStart beforeMin =
     (case next_it d beforeStart of Inl e \<Rightarrow> Some (Inl e) | Inr bs \<Rightarrow>
       if bs = end_it then Some (Inr beforeMin)
       else (case next_it d bs of Inl e \<Rightarrow> Some (Inl e) | Inr nbs \<Rightarrow>
         if nbs = end_it then Some (Inr beforeMin)
         else (case deref d nbs of Inl e \<Rightarrow> Some (Inl e) | Inr c1 \<Rightarrow>
           (case next_it d beforeMin of Inl e \<Rightarrow> Some (Inl e) | Inr nbm \<Rightarrow>
             (case deref d nbm of Inl e \<Rightarrow> Some (Inl e) | Inr c2 \<Rightarrow>
                findBeforeMin_loop d bs (if card_less c1 c2 then bs else beforeMin))))))"

definition findBeforeMin :: "Deck \<Rightarrow> addr option \<Rightarrow> (error + addr option) option" where
  "findBeforeMin d beforeStart =
     (case findBeforeMin_loop d beforeStart beforeStart of None \<Rightarrow> None
      | Some (Inl e) \<Rightarrow> Some (Inl e)
      | Some (Inr beforeMin) \<Rightarrow>
          if beforeMin = end_it then Some (Inl AssertionFailed)
          else (case next_it d beforeMin of Inl e \<Rightarrow> Some (Inl e) | Inr nbm \<Rightarrow>
            if nbm = end_it then Some (Inl AssertionFailed) else Some (Inr beforeMin)))"

partial_function (option) stableSelectionSort_loop ::
  "addr option \<Rightarrow> Deck \<Rightarrow> (error + Deck) option" where
  "stableSelectionSort_loop inserter d =
     (case next_it d inserter of Inl e \<Rightarrow> Some (Inl e) | Inr nx \<Rightarrow>
       if nx = end_it then Some (Inr d)
       else (case findBeforeMin d inserter of None \<Rightarrow> None
         | Some (Inl e) \<Rightarrow> Some (Inl e)
         | Some (Inr beforeMin) \<Rightarrow>
            (case extractAfter beforeMin d of Inl e \<Rightarrow> Some (Inl e) | Inr (extracted, d1) \<Rightarrow>
              (case attachAfter inserter extracted d1 of Inl e \<Rightarrow> Some (Inl e) | Inr d2 \<Rightarrow>
                (case next_it d2 inserter of Inl e \<Rightarrow> Some (Inl e) | Inr inserter' \<Rightarrow>
                   stableSelectionSort_loop inserter' d2)))))"

definition stableSelectionSort :: "Deck \<Rightarrow> (error + Deck) option" where
  "stableSelectionSort d = stableSelectionSort_loop (beforeBegin d) d"

section \<open>generateStandardDeck\<close>

text \<open>
  The inner loop over the initializer list of suits; \<open>alloc k\<close> is the address the
  \<open>k\<close>-th \<open>new\<close> of the run returns.
\<close>

fun push_suites :: "CardRank \<Rightarrow> CardSuite list \<Rightarrow> (nat \<Rightarrow> addr) \<Rightarrow> nat \<Rightarrow> Deck \<Rightarrow> error + (nat \<times> Deck)" where
  "push_suites r [] alloc k d = Inr (k, d)"
| "push_suites r (s # ss) alloc k d =
     (case pushFront \<lparr>suite = s, rank = r\<rparr> (alloc k) d of Inl e \<Rightarrow> Inl e
      | Inr d1 \<Rightarrow> push_suites r ss alloc (Suc k) d1)"

function generate_loop :: "CardRank \<Rightarrow> (nat \<Rightarrow> addr) \<Rightarrow> nat \<Rightarrow> Deck \<Rightarrow> error + Deck" where
  "generate_loop r alloc k d =
     (if TWO \<le> r
      then (case push_suites r [SPADE, HEART, CLUB, DIAMOND] alloc k d of Inl e \<Rightarrow> Inl e
            | Inr (k1, d1) \<Rightarrow> generate_loop (r - 1) alloc k1 d1)
      else Inr d)"
  by pat_completeness auto
termination
proof (relation "measure (\<lambda>(r, alloc, k, d). unat r)")
  show "wf (measure (\<lambda>(r, alloc, k, d). unat r))" by simp
next
  fix r :: CardRank and alloc :: "nat \<Rightarrow> addr" and k :: nat and d :: Deck
    and x y k1 d1
  assume "TWO \<le> r"
  then have "r \<noteq> 0" by (auto simp: TWO_def)
  then have "0 < unat r" by (simp add: unat_gt_0)
  with \<open>r \<noteq> 0\<close> have "unat (r - 1) < unat r"
    by (simp add: unat_minus_one)
  then show "((r - 1, alloc, k1, d1), (r, alloc, k, d)) \<in> measure (\<lambda>(r, alloc, k, d). unat r)"
    by simp
qed

definition generateStandardDeck :: "addr \<Rightarrow> (nat \<Rightarrow> addr) \<Rightarrow> error + Deck" where
  "generateStandardDeck self alloc = generate_loop ACE alloc 0 (Deck_new self)"

declare traverse_from.simps [code]
declare shuffle_loop.simps [code]
declare findBeforeMin_loop.simps [code]
declare stableSelectionSort_loop.simps [code]

section \<open>Well-formed decks\<close>

text \<open>
  \<open>lseg h p as q\<close>: following \<open>next\<close> from \<open>p\<close> visits exactly the nodes \<open>as\<close>
  and arrives at \<open>q\<close>. A deck is well formed on the node list \<open>as\<close> when the chain from
  the sentinel is the sentinel followed by \<open>as\<close>, ends in \<open>nullptr\<close>, repeats no node,
  and \<open>deckSize\<close> is the number of nodes.
\<close>

fun lseg :: "(addr \<rightharpoonup> Node) \<Rightarrow> addr option \<Rightarrow> addr list \<Rightarrow> addr option \<Rightarrow> bool" where
  "lseg h p [] q = (p = q)"
| "lseg h p (a # as) q = (p = Some a \<and> (\<exists>n. h a = Some n \<and> lseg h (next n) as q))"

definition same_cards :: "(addr \<rightharpoonup> Node) \<Rightarrow> (addr \<rightharpoonup> Node) \<Rightarrow> bool" where
  "same_cards h h' = (\<forall>a. map_option card_v (h' a) = map_option card_v (h a))"

definition card_at :: "(addr \<rightharpoonup> Node) \<Rightarrow> addr \<Rightarrow> Card" where
  "card_at h a = card_v (the (h a))"

definition deck_chain :: "Deck \<Rightarrow> addr list \<Rightarrow> bool" where
  "deck_chain d as =
     (lseg (deck_heap d) (Some (beforeHeadNode d)) (beforeHeadNode d # as) None
      \<and> distinct (beforeHeadNode d # as))"

definition wf_deck :: "Deck \<Rightarrow> addr list \<Rightarrow> bool" where
  "wf_deck d as = (deck_chain d as \<and> deckSize d = length as)"

lemma lseg_append:
  "lseg h p (xs @ ys) q = (\<exists>r. lseg h p xs r \<and> lseg h r ys q)"
  by (induction xs arbitrary: p) auto

lemma lseg_frame:
  "a \<notin> set xs \<Longrightarrow> lseg (h(a := v)) p xs q = lseg h p xs q"
  by (induction xs arbitrary: p) auto

lemma lseg_card_upd:
  "h a = Some n \<Longrightarrow> lseg (h(a \<mapsto> n\<lparr>card_v := c\<rparr>)) p xs q = lseg h p xs q"
  by (induction xs arbitrary: p) auto

lemma lseg_dom: "lseg h p xs q \<Longrightarrow> set xs \<subseteq> dom h"
  by (induction xs arbitrary: p) auto

lemma lseg_unique:
  "lseg h p xs None \<Longrightarrow> lseg h p ys None \<Longrightarrow> xs = ys"
proof (induction xs arbitrary: p ys)
  case Nil
  then show ?case by (cases ys) auto
next
  case (Cons a xs)
  then show ?case by (cases ys) auto
qed

lemma same_cards_refl: "same_cards h h"
  by (simp add: same_cards_def)

lemma same_cards_trans: "same_cards h h1 \<Longrightarrow> same_cards h1 h2 \<Longrightarrow> same_cards h h2"
  by (simp add: same_cards_def)

lemma same_cards_next_upd:
  "h a = Some n \<Longrightarrow> same_cards h (h(a \<mapsto> n\<lparr>next := q\<rparr>))"
  by (simp add: same_cards_def)

lemma same_cards_dom: "same_cards h h' \<Longrightarrow> dom h' = dom h"
  unfolding same_cards_def dom_def
  by (metis (no_types, opaque_lifting) option.map_disc_iff)

lemma same_cards_card_at: "same_cards h h' \<Longrightarrow> card_at h' a = card_at h a"
  unfolding same_cards_def card_at_def
  by (metis option.map_sel option.map_disc_iff option.sel)

lemma next_it_Some: "deck_heap d a = Some n \<Longrightarrow> next_it d (Some a) = Inr (next n)"
  by (simp add: next_it_def)

lemma deref_Some: "deck_heap d a = Some n \<Longrightarrow> deref d (Some a) = Inr (card_v n)"
  by (simp add: deref_def)

lemma traverse_from_lseg:
  "lseg (deck_heap d) p as None \<Longrightarrow>
   traverse_from d p = Some (Inr (map (card_at (deck_heap d)) as))"
proof (induction as arbitrary: p)
  case Nil
  then show ?case by (simp add: traverse_from.simps end_it_def)
next
  case (Cons a as)
  then obtain n where n: "p = Some a" "deck_heap d a = Some n" "lseg (deck_heap d) (next n) as None"
    by auto
  from Cons.IH[OF n(3)] n(1,2) show ?case
    by (subst traverse_from.simps) (simp add: end_it_def deref_Some next_it_Some card_at_def)
qed

lemma traverse_wf:
  assumes "deck_chain d as"
  shows "traverse d = Some (Inr (map (card_at (deck_heap d)) as))"
proof -
  from assms obtain n where n: "deck_heap d (beforeHeadNode d) = Some n"
    "lseg (deck_heap d) (next n) as None"
    by (auto simp: deck_chain_def)
  then show ?thesis
    by (simp add: traverse_def begin_it_def beforeBegin_def next_it_Some traverse_from_lseg)
qed

lemma lseg_snoc:
  "lseg h p (xs @ [a]) q = (lseg h p xs (Some a) \<and> (\<exists>n. h a = Some n \<and> next n = q))"
  by (simp add: lseg_append) 

lemma lseg_next_upd_last:
  assumes "lseg h p (xs @ [b]) q" "b \<notin> set xs" "h b = Some nb"
  shows "lseg (h(b \<mapsto> nb\<lparr>next := r\<rparr>)) p (xs @ [b]) r"
  using assms by (simp add: lseg_snoc lseg_frame)

text \<open>Unlinking the successor of b.\<close>
lemma extractAfter_chain:
  assumes ch: "lseg (deck_heap d) p (xs @ b # m # vs) None"
    and dist: "distinct (xs @ b # m # vs)"
  shows "\<exists>d'. extractAfter (Some b) d = Inr (Some m, d')
            \<and> lseg (deck_heap d') p (xs @ b # vs) None
            \<and> same_cards (deck_heap d) (deck_heap d')
            \<and> beforeHeadNode d' = beforeHeadNode d \<and> deckSize d' = deckSize d
            \<and> lseg (deck_heap d') (next (the (deck_heap d' m))) vs None"
proof -
  let ?h = "deck_heap d"
  from ch obtain nb nm where
    pre: "lseg ?h p xs (Some b)" and nb: "?h b = Some nb" "next nb = Some m"
    and nm: "?h m = Some nm" and tl: "lseg ?h (next nm) vs None"
    by (auto simp: lseg_append)
  let ?h' = "?h(b \<mapsto> nb\<lparr>next := next nm\<rparr>)"
  let ?d' = "d\<lparr>deck_heap := ?h'\<rparr>"
  have ex: "extractAfter (Some b) d = Inr (Some m, ?d')"
    using nb nm by (simp add: extractAfter_def next_it_Some store_next_def)
  from dist have bx: "b \<notin> set xs" "b \<notin> set vs" "b \<noteq> m" by auto
  have "lseg ?h' p xs (Some b)" using pre bx by (simp add: lseg_frame)
  moreover have tl': "lseg ?h' (next nm) vs None" using tl bx by (simp add: lseg_frame)
  ultimately have "lseg ?h' p (xs @ b # vs) None"
    by (auto simp: lseg_append)
  moreover have "same_cards ?h ?h'" using nb by (simp add: same_cards_next_upd)
  moreover have "lseg ?h' (next (the (?h' m))) vs None" using tl' nm bx by simp
  ultimately show ?thesis using ex by auto
qed

lemma attachAfter_chain:
  assumes ch: "lseg (deck_heap d) p (xs @ b # vs) None"
    and dist: "distinct (xs @ b # vs)"
    and m: "m \<notin> set (xs @ b # vs)" "deck_heap d m = Some nm"
  shows "\<exists>d'. attachAfter (Some b) (Some m) d = Inr d'
            \<and> lseg (deck_heap d') p (xs @ b # m # vs) None
            \<and> same_cards (deck_heap d) (deck_heap d')
            \<and> beforeHeadNode d' = beforeHeadNode d \<and> deckSize d' = deckSize d"
proof -
  let ?h = "deck_heap d"
  from ch obtain nb where
    pre: "lseg ?h p xs (Some b)" and nb: "?h b = Some nb"
    and tl: "lseg ?h (next nb) vs None"
    by (auto simp: lseg_append)
  from m dist have ne: "m \<noteq> b" "m \<notin> set xs" "m \<notin> set vs" "b \<notin> set xs" "b \<notin> set vs" by auto
  let ?h1 = "?h(m \<mapsto> nm\<lparr>next := next nb\<rparr>)"
  let ?h2 = "?h1(b \<mapsto> nb\<lparr>next := Some m\<rparr>)"
  let ?d' = "d\<lparr>deck_heap := ?h2\<rparr>"
  have at: "attachAfter (Some b) (Some m) d = Inr ?d'"
    using nb m ne by (simp add: attachAfter_def next_it_Some store_next_def)
  have "lseg ?h2 p xs (Some b)" using pre ne by (simp add: lseg_frame)
  moreover have "lseg ?h2 (next nb) vs None" using tl ne by (simp add: lseg_frame)
  ultimately have "lseg ?h2 p (xs @ b # m # vs) None"
    using ne by (auto simp: lseg_append)
  moreover have "same_cards ?h ?h2"
    using nb m ne by (auto simp: same_cards_def)
  ultimately show ?thesis using at by auto
qed

fun scan_min :: "('a \<Rightarrow> 'k::linorder) \<Rightarrow> 'a \<Rightarrow> 'a \<Rightarrow> 'a \<Rightarrow> 'a list \<Rightarrow> 'a" where
  "scan_min k bm m e [] = bm"
| "scan_min k bm m e (y # ys) =
     (if k y < k m then scan_min k e y y ys else scan_min k bm m y ys)"

definition rank_at :: "(addr \<rightharpoonup> Node) \<Rightarrow> addr \<Rightarrow> CardRank" where
  "rank_at h a = rank (card_at h a)"

lemma findBeforeMin_loop_scan:
  assumes "lseg (deck_heap d) (Some z) (z # e # ys) None"
    and "deck_heap d bm = Some nbm" "next nbm = Some m" "deck_heap d m = Some nm"
  shows "findBeforeMin_loop d (Some z) (Some bm)
         = Some (Inr (Some (scan_min (rank_at (deck_heap d)) bm m e ys)))"
  using assms
proof (induction ys arbitrary: z e bm m nbm nm)
  case Nil
  then show ?case
    by (subst findBeforeMin_loop.simps) (auto simp: next_it_Some end_it_def)
next
  case (Cons y ys)
  let ?h = "deck_heap d"
  from Cons.prems(1) obtain nz ne ny where
    nz: "?h z = Some nz" "next nz = Some e" and ne: "?h e = Some ne" "next ne = Some y"
    and ny: "?h y = Some ny" and rest: "lseg ?h (Some e) (e # y # ys) None"
    by auto
  have rk: "rank_at ?h y = rank (card_v ny)" "rank_at ?h m = rank (card_v nm)"
    using ny Cons.prems(4) by (simp_all add: rank_at_def card_at_def)
  show ?case
  proof (cases "card_less (card_v ny) (card_v nm)")
    case True
    have "findBeforeMin_loop d (Some z) (Some bm) = findBeforeMin_loop d (Some e) (Some e)"
      using nz ne ny Cons.prems(2-4) True
      by (subst findBeforeMin_loop.simps) (simp add: next_it_Some deref_Some end_it_def)
    also have "\<dots> = Some (Inr (Some (scan_min (rank_at ?h) e y y ys)))"
      by (rule Cons.IH[OF rest ne(1) ne(2) ny])
    finally show ?thesis
      using True rk by (simp add: card_less_def)
  next
    case False
    have "findBeforeMin_loop d (Some z) (Some bm) = findBeforeMin_loop d (Some e) (Some bm)"
      using nz ne ny Cons.prems(2-4) False
      by (subst findBeforeMin_loop.simps) (simp add: next_it_Some deref_Some end_it_def)
    also have "\<dots> = Some (Inr (Some (scan_min (rank_at ?h) bm m y ys)))"
      by (rule Cons.IH[OF rest Cons.prems(2) Cons.prems(3) Cons.prems(4)])
    finally show ?thesis
      using False rk by (simp add: card_less_def)
  qed
qed

lemma scan_min_inv:
  assumes "e = last (m # ws)" "bm = last (b # us)"
    and "\<forall>u\<in>set us. k m < k u" "\<forall>w\<in>set ws. k m \<le> k w"
  shows "\<exists>us' m' vs'. us @ m # ws @ ys = us' @ m' # vs'
           \<and> scan_min k bm m e ys = last (b # us')
           \<and> (\<forall>u\<in>set us'. k m' < k u) \<and> (\<forall>v\<in>set vs'. k m' \<le> k v)"
  using assms
proof (induction ys arbitrary: e m ws bm us)
  case Nil
  then show ?case by auto
next
  case (Cons y ys)
  show ?case
  proof (cases "k y < k m")
    case True
    have "\<exists>us' m' vs'. (us @ m # ws) @ y # [] @ ys = us' @ m' # vs'
           \<and> scan_min k e y y ys = last (b # us')
           \<and> (\<forall>u\<in>set us'. k m' < k u) \<and> (\<forall>v\<in>set vs'. k m' \<le> k v)"
    proof (rule Cons.IH)
      show "y = last [y]" by simp
      show "e = last (b # us @ m # ws)" using Cons.prems(1) by simp
      show "\<forall>u\<in>set (us @ m # ws). k y < k u"
        using True Cons.prems(3,4) by (auto intro: less_trans less_le_trans)
      show "\<forall>w\<in>set []. k y \<le> k w" by simp
    qed
    then show ?thesis using True by simp
  next
    case False
    have "\<exists>us' m' vs'. us @ m # (ws @ [y]) @ ys = us' @ m' # vs'
           \<and> scan_min k bm m y ys = last (b # us')
           \<and> (\<forall>u\<in>set us'. k m' < k u) \<and> (\<forall>v\<in>set vs'. k m' \<le> k v)"
    proof (rule Cons.IH)
      show "y = last (m # ws @ [y])" by simp
      show "bm = last (b # us)" by (rule Cons.prems(2))
      show "\<forall>u\<in>set us. k m < k u" by (rule Cons.prems(3))
      show "\<forall>w\<in>set (ws @ [y]). k m \<le> k w" using False Cons.prems(4) by auto
    qed
    then show ?thesis using False by simp
  qed
qed

lemma scan_min_first_min:
  "\<exists>us m vs. x # xs = us @ m # vs
           \<and> scan_min k b x x xs = last (b # us)
           \<and> (\<forall>u\<in>set us. k m < k u) \<and> (\<forall>v\<in>set vs. k m \<le> k v)"
  using scan_min_inv[of x x "[]" b b "[]" k xs] by simp

lemma lseg_mid:
  "lseg h p (xs @ b # m # vs) q \<Longrightarrow> \<exists>n. h b = Some n \<and> next n = Some m"
  by (auto simp: lseg_append)

lemma lseg_mid_last:
  "lseg h p (xs @ [b]) q \<Longrightarrow> \<exists>n. h b = Some n \<and> next n = q"
  by (auto simp: lseg_append)

text \<open>findBeforeMin on the node before a non-empty remainder: the node before the
  first minimum of the remainder.\<close>
lemma findBeforeMin_chain:
  assumes "lseg (deck_heap d) (Some b) (b # x # xs) None"
  shows "\<exists>us m vs. x # xs = us @ m # vs
           \<and> findBeforeMin d (Some b) = Some (Inr (Some (last (b # us))))
           \<and> (\<forall>u\<in>set us. rank_at (deck_heap d) m < rank_at (deck_heap d) u)
           \<and> (\<forall>v\<in>set vs. rank_at (deck_heap d) m \<le> rank_at (deck_heap d) v)"
proof -
  let ?h = "deck_heap d" let ?k = "rank_at (deck_heap d)"
  from assms obtain nb nx where nb: "?h b = Some nb" "next nb = Some x" and nx: "?h x = Some nx"
    by auto
  have loop: "findBeforeMin_loop d (Some b) (Some b) = Some (Inr (Some (scan_min ?k b x x xs)))"
    by (rule findBeforeMin_loop_scan[OF assms nb nx])
  from scan_min_first_min[of x xs ?k b] obtain us m vs where
    sp: "x # xs = us @ m # vs" "scan_min ?k b x x xs = last (b # us)"
    "\<forall>u\<in>set us. ?k m < ?k u" "\<forall>v\<in>set vs. ?k m \<le> ?k v"
    by blast
  have bl: "butlast (b # us) @ [last (b # us)] = b # us"
    by (rule append_butlast_last_id) simp
  have "b # x # xs = (b # us) @ m # vs" using sp(1) by simp
  also have "\<dots> = (butlast (b # us) @ [last (b # us)]) @ m # vs" by (simp only: bl)
  also have "\<dots> = butlast (b # us) @ last (b # us) # m # vs" by simp
  finally have "b # x # xs = butlast (b # us) @ last (b # us) # m # vs" .
  with assms have "lseg ?h (Some b) (butlast (b # us) @ last (b # us) # m # vs) None" by simp
  from lseg_mid[OF this] obtain n where "?h (last (b # us)) = Some n" "next n = Some m" by blast
  then have "findBeforeMin d (Some b) = Some (Inr (Some (last (b # us))))"
    unfolding findBeforeMin_def loop sp(2) by (simp add: end_it_def next_it_Some)
  with sp show ?thesis by blast
qed

definition stable_sorted_of :: "('a \<Rightarrow> 'k::linorder) \<Rightarrow> 'a list \<Rightarrow> 'a list \<Rightarrow> bool" where
  "stable_sorted_of k xs ys =
     (mset ys = mset xs \<and> sorted (map k ys)
      \<and> (\<forall>r. filter (\<lambda>a. k a = r) ys = filter (\<lambda>a. k a = r) xs))"

lemma stable_sorted_of_Nil: "stable_sorted_of k [] []"
  by (simp add: stable_sorted_of_def)

lemma stable_sorted_of_step:
  assumes "stable_sorted_of k (us @ vs) ys"
    and "\<forall>u\<in>set us. k m < k u" "\<forall>v\<in>set vs. k m \<le> k v"
  shows "stable_sorted_of k (us @ m # vs) (m # ys)"
proof -
  from assms(1) have ms: "mset ys = mset (us @ vs)" and so: "sorted (map k ys)"
    and fl: "\<And>r. filter (\<lambda>a. k a = r) ys = filter (\<lambda>a. k a = r) (us @ vs)"
    by (auto simp: stable_sorted_of_def)
  from ms have "set ys = set us \<union> set vs" by (metis set_append set_mset_mset)
  with assms(2,3) have le: "\<forall>y\<in>set ys. k m \<le> k y" by (auto intro: less_imp_le)
  have nou: "filter (\<lambda>a. k a = k m) us = []"
    using assms(2) by (auto simp: filter_empty_conv)
  have "filter (\<lambda>a. k a = r) (m # ys) = filter (\<lambda>a. k a = r) (us @ m # vs)" for r
  proof (cases "k m = r")
    case True
    then show ?thesis using fl[of r] nou by auto
  next
    case False
    then show ?thesis using fl[of r] by auto
  qed
  then show ?thesis using ms so le by (auto simp: stable_sorted_of_def)
qed

lemma rank_at_same_cards: "same_cards h h' \<Longrightarrow> rank_at h' = rank_at h"
  by (rule ext) (simp add: rank_at_def same_cards_card_at)

lemma stableSelectionSort_loop_chain:
  assumes "lseg (deck_heap d) p (A @ b # rest) None" "distinct (A @ b # rest)"
  shows "\<exists>d' rest'. stableSelectionSort_loop (Some b) d = Some (Inr d')
           \<and> lseg (deck_heap d') p (A @ b # rest') None
           \<and> stable_sorted_of (rank_at (deck_heap d)) rest rest'
           \<and> same_cards (deck_heap d) (deck_heap d')
           \<and> beforeHeadNode d' = beforeHeadNode d \<and> deckSize d' = deckSize d"
  using assms
proof (induction "length rest" arbitrary: A b rest d rule: less_induct)
  case less
  let ?h = "deck_heap d" let ?k = "rank_at (deck_heap d)"
  show ?case
  proof (cases rest)
    case Nil
    with less.prems(1) obtain n where "?h b = Some n" "next n = None"
      using lseg_mid_last[of ?h p A b None] by auto
    then have "stableSelectionSort_loop (Some b) d = Some (Inr d)"
      by (subst stableSelectionSort_loop.simps) (simp add: next_it_Some end_it_def)
    with Nil less.prems(1) show ?thesis
      by (auto simp: stable_sorted_of_Nil same_cards_refl)
  next
    case (Cons x xs)
    from less.prems(1) Cons have chb: "lseg ?h (Some b) (b # x # xs) None"
      by (auto simp: lseg_append)
    from findBeforeMin_chain[OF chb] obtain us m vs where
      sp: "x # xs = us @ m # vs"
      and fb: "findBeforeMin d (Some b) = Some (Inr (Some (last (b # us))))"
      and mn: "\<forall>u\<in>set us. ?k m < ?k u" "\<forall>v\<in>set vs. ?k m \<le> ?k v"
      by blast
    define bm where "bm = last (b # us)"
    define Q where "Q = butlast (b # us)"
    have bl: "Q @ [bm] = b # us" unfolding bm_def Q_def by (rule append_butlast_last_id) simp
    note fb = fb[folded bm_def]
    have full: "A @ b # rest = (A @ Q) @ bm # m # vs"
    proof -
      have "A @ b # rest = A @ (b # us) @ m # vs" using Cons sp by simp
      also have "\<dots> = A @ (Q @ [bm]) @ m # vs" by (simp only: bl)
      finally show ?thesis by simp
    qed
    have ch1: "lseg ?h p ((A @ Q) @ bm # m # vs) None" and di1: "distinct ((A @ Q) @ bm # m # vs)"
      using less.prems full by simp_all
    from extractAfter_chain[OF ch1 di1] obtain d1 where
      ex: "extractAfter (Some bm) d = Inr (Some m, d1)"
      and ch2: "lseg (deck_heap d1) p ((A @ Q) @ bm # vs) None"
      and sc1: "same_cards ?h (deck_heap d1)"
      and fr1: "beforeHeadNode d1 = beforeHeadNode d" "deckSize d1 = deckSize d"
      by blast
    have mid: "(A @ Q) @ bm # vs = A @ b # us @ vs"
    proof -
      have "(A @ Q) @ bm # vs = A @ (Q @ [bm]) @ vs" by simp
      also have "\<dots> = A @ (b # us) @ vs" by (simp only: bl)
      finally show ?thesis by simp
    qed
    have ch3: "lseg (deck_heap d1) p (A @ b # us @ vs) None" using ch2 by (simp only: mid)
    have di3: "distinct (A @ b # us @ vs)" and mnot: "m \<notin> set (A @ b # us @ vs)"
      using less.prems(2) Cons sp by auto
    have "m \<in> dom ?h" using lseg_dom[OF less.prems(1)] Cons sp by auto
    then have "m \<in> dom (deck_heap d1)" using same_cards_dom[OF sc1] by simp
    then obtain nm where nm: "deck_heap d1 m = Some nm" by auto
    from attachAfter_chain[OF ch3 di3 mnot nm] obtain d2 where
      at: "attachAfter (Some b) (Some m) d1 = Inr d2"
      and ch4: "lseg (deck_heap d2) p (A @ b # m # us @ vs) None"
      and sc2: "same_cards (deck_heap d1) (deck_heap d2)"
      and fr2: "beforeHeadNode d2 = beforeHeadNode d1" "deckSize d2 = deckSize d1"
      by blast
    from lseg_mid[OF ch4] obtain nb2 where nb2: "deck_heap d2 b = Some nb2" "next nb2 = Some m"
      by blast
    from chb obtain nb where nb: "?h b = Some nb" "next nb = Some x" by auto
    have step: "stableSelectionSort_loop (Some b) d = stableSelectionSort_loop (Some m) d2"
      using nb fb ex at nb2
      by (subst stableSelectionSort_loop.simps) (simp add: next_it_Some end_it_def)
    have ch5: "lseg (deck_heap d2) p ((A @ [b]) @ m # (us @ vs)) None" using ch4 by simp
    have di5: "distinct ((A @ [b]) @ m # (us @ vs))" using less.prems(2) Cons sp by auto
    have len: "length (us @ vs) < length rest" using Cons sp
      by (metis length_Cons length_append lessI add_Suc_right)
    from less.hyps[OF len ch5 di5] obtain d' rest' where
      r: "stableSelectionSort_loop (Some m) d2 = Some (Inr d')"
      "lseg (deck_heap d') p ((A @ [b]) @ m # rest') None"
      "stable_sorted_of (rank_at (deck_heap d2)) (us @ vs) rest'"
      "same_cards (deck_heap d2) (deck_heap d')"
      "beforeHeadNode d' = beforeHeadNode d2" "deckSize d' = deckSize d2"
      by blast
    have sc: "same_cards ?h (deck_heap d2)" using sc1 sc2 by (rule same_cards_trans)
    have keq: "rank_at (deck_heap d2) = ?k" by (rule rank_at_same_cards[OF sc])
    have "stable_sorted_of ?k (us @ m # vs) (m # rest')"
      using r(3) mn unfolding keq by (rule stable_sorted_of_step)
    then have "stable_sorted_of ?k rest (m # rest')" using Cons sp by simp
    moreover have "lseg (deck_heap d') p (A @ b # m # rest') None" using r(2) by simp
    moreover have "same_cards ?h (deck_heap d')" using sc r(4) by (rule same_cards_trans)
    ultimately show ?thesis using step r(1,5,6) fr1 fr2 by auto
  qed
qed

section \<open>stableSelectionSort: sorted, stable, a permutation\<close>

definition deck0 :: Deck where
  "deck0 = \<lparr>deck_heap = [0 \<mapsto> \<lparr>card_v = Card_default, next = Some 1\<rparr>,
                         1 \<mapsto> \<lparr>card_v = \<lparr>suite = HEART, rank = THREE\<rparr>, next = Some 2\<rparr>,
                         2 \<mapsto> \<lparr>card_v = \<lparr>suite = SPADE, rank = TWO\<rparr>, next = Some 3\<rparr>,
                         3 \<mapsto> \<lparr>card_v = \<lparr>suite = CLUB, rank = THREE\<rparr>, next = None\<rparr>],
             beforeHeadNode = 0, deckSize = 3\<rparr>"

lemma wf_deck0: "wf_deck deck0 [1, 2, 3]"
  by (simp add: wf_deck_def deck_chain_def deck0_def)

lemma stableSelectionSort_wf:
  assumes "wf_deck d as"
  shows "\<exists>d' as'. stableSelectionSort d = Some (Inr d') \<and> wf_deck d' as'
           \<and> stable_sorted_of (rank_at (deck_heap d)) as as'
           \<and> same_cards (deck_heap d) (deck_heap d')
           \<and> beforeHeadNode d' = beforeHeadNode d"
proof -
  let ?s = "beforeHeadNode d"
  from assms have ch: "lseg (deck_heap d) (Some ?s) ([] @ ?s # as) None"
    and di: "distinct ([] @ ?s # as)" and sz: "deckSize d = length as"
    by (simp_all add: wf_deck_def deck_chain_def)
  from stableSelectionSort_loop_chain[OF ch di] obtain d' as' where
    r: "stableSelectionSort_loop (Some ?s) d = Some (Inr d')"
    "lseg (deck_heap d') (Some ?s) ([] @ ?s # as') None"
    "stable_sorted_of (rank_at (deck_heap d)) as as'"
    "same_cards (deck_heap d) (deck_heap d')"
    "beforeHeadNode d' = ?s" "deckSize d' = deckSize d"
    by blast
  from r(3) have ms: "mset as' = mset as" by (simp add: stable_sorted_of_def)
  then have "set as' = set as" "distinct as' = distinct as" "length as' = length as"
    by (auto dest: mset_eq_setD mset_eq_imp_distinct_iff mset_eq_length)
  with di r(2,5,6) sz have "wf_deck d' as'"
    by (simp add: wf_deck_def deck_chain_def)
  with r show ?thesis by (auto simp: stableSelectionSort_def beforeBegin_def)
qed

lemma traverse_wf_deck:
  "wf_deck d as \<Longrightarrow> traverse d = Some (Inr (map (card_at (deck_heap d)) as))"
  by (simp add: wf_deck_def traverse_wf)

lemma card_at_same_cards: "same_cards h h' \<Longrightarrow> card_at h' = card_at h"
  by (rule ext) (simp add: same_cards_card_at)

text \<open>
  Claim C5. For every well-formed deck \<open>stableSelectionSort\<close> returns, and the cards then
  traversed from front to back are non-decreasing by rank: the ranks are sorted, and no
  card is \<open>operator<\<close>-less than a card before it (the comparison reads ranks only).
\<close>

theorem stableSelectionSort_sorted:
  assumes "wf_deck d as"
  shows "\<exists>d' cs. stableSelectionSort d = Some (Inr d') \<and> traverse d' = Some (Inr cs)
           \<and> sorted (map rank cs) \<and> sorted_wrt (\<lambda>x y. \<not> card_less y x) cs"
proof -
  from stableSelectionSort_wf[OF assms] obtain d' as' where
    r: "stableSelectionSort d = Some (Inr d')" "wf_deck d' as'"
    "stable_sorted_of (rank_at (deck_heap d)) as as'"
    "same_cards (deck_heap d) (deck_heap d')"
    by blast
  let ?cs = "map (card_at (deck_heap d')) as'"
  have tr: "traverse d' = Some (Inr ?cs)" by (rule traverse_wf_deck[OF r(2)])
  have "map rank ?cs = map (rank_at (deck_heap d')) as'"
    by (simp add: rank_at_def)
  also have "\<dots> = map (rank_at (deck_heap d)) as'"
    by (simp only: rank_at_same_cards[OF r(4)])
  finally have eq: "map rank ?cs = map (rank_at (deck_heap d)) as'" .
  have "sorted (map (rank_at (deck_heap d)) as')" using r(3) by (simp add: stable_sorted_of_def)
  then have so: "sorted (map rank ?cs)" by (simp only: eq)
  then have "sorted_wrt (\<lambda>x y. rank x \<le> rank y) ?cs"
    by (simp only: sorted_wrt_map)
  then have "sorted_wrt (\<lambda>x y. \<not> card_less y x) ?cs"
    by (simp add: card_less_def not_less)
  with r(1) tr so show ?thesis by blast
qed

theorem stableSelectionSort_sorted_witness:
  "wf_deck deck0 [1, 2, 3] \<and>
   (\<exists>d' cs. stableSelectionSort deck0 = Some (Inr d') \<and> traverse d' = Some (Inr cs)
           \<and> sorted (map rank cs) \<and> sorted_wrt (\<lambda>x y. \<not> card_less y x) cs)"
  using stableSelectionSort_sorted[OF wf_deck0] wf_deck0 by simp

text \<open>
  Claim C9. For every well-formed deck \<open>stableSelectionSort\<close> returns a deck on a
  permutation \<open>as'\<close> of the same nodes \<open>as\<close>: every node keeps its card, the set of
  allocated nodes is the same (nothing is created or destroyed), \<open>size()\<close> is unchanged,
  and the multiset of cards traversed after the sort is the multiset traversed before.
\<close>

theorem stableSelectionSort_permutation:
  assumes "wf_deck d as"
  shows "\<exists>d' as' cs cs'. stableSelectionSort d = Some (Inr d') \<and> wf_deck d' as'
           \<and> mset as' = mset as
           \<and> same_cards (deck_heap d) (deck_heap d')
           \<and> dom (deck_heap d') = dom (deck_heap d)
           \<and> deck_size d' = deck_size d
           \<and> traverse d = Some (Inr cs) \<and> traverse d' = Some (Inr cs')
           \<and> mset cs' = mset cs"
proof -
  from stableSelectionSort_wf[OF assms] obtain d' as' where
    r: "stableSelectionSort d = Some (Inr d')" "wf_deck d' as'"
    "stable_sorted_of (rank_at (deck_heap d)) as as'"
    "same_cards (deck_heap d) (deck_heap d')"
    by blast
  from r(3) have ms: "mset as' = mset as" by (simp add: stable_sorted_of_def)
  have "mset (map (card_at (deck_heap d')) as') = mset (map (card_at (deck_heap d)) as)"
    using ms by (simp add: card_at_same_cards[OF r(4)])
  moreover have "deck_size d' = deck_size d"
    using assms r(2) ms by (auto simp: deck_size_def wf_deck_def dest: mset_eq_length)
  ultimately show ?thesis
    using r ms traverse_wf_deck[OF assms] traverse_wf_deck[OF r(2)] same_cards_dom[OF r(4)]
    by blast
qed

theorem stableSelectionSort_permutation_witness:
  "wf_deck deck0 [1, 2, 3] \<and>
   (\<exists>d' as' cs cs'. stableSelectionSort deck0 = Some (Inr d') \<and> wf_deck d' as'
           \<and> mset as' = mset [1, 2, 3]
           \<and> same_cards (deck_heap deck0) (deck_heap d')
           \<and> dom (deck_heap d') = dom (deck_heap deck0)
           \<and> deck_size d' = deck_size deck0
           \<and> traverse deck0 = Some (Inr cs) \<and> traverse d' = Some (Inr cs')
           \<and> mset cs' = mset cs)"
  using stableSelectionSort_permutation[OF wf_deck0] wf_deck0 by simp

text \<open>
  Claim C6. \<open>stableSelectionSort\<close> is stable. For every well-formed deck it returns a
  deck in which, for every rank, the nodes of that rank stand in the order they had
  before (each node keeping its card); so for every card \<open>c\<close> the cards that compare
  equal to \<open>c\<close> are traversed in the same order after as before. Each selection step
  picks the earliest minimum: for every node \<open>b\<close> of a well-formed deck with a non-empty
  remainder \<open>x # xs\<close> behind it, \<open>findBeforeMin\<close> returns the node before \<open>m\<close>, where
  every card of the remainder before \<open>m\<close> is greater than \<open>m\<close>'s and no card behind
  \<open>m\<close> is less.
\<close>

theorem stableSelectionSort_stable:
  assumes "wf_deck d as"
  shows "\<exists>d' as' cs cs'. stableSelectionSort d = Some (Inr d') \<and> wf_deck d' as'
           \<and> same_cards (deck_heap d) (deck_heap d')
           \<and> (\<forall>r. filter (\<lambda>a. rank_at (deck_heap d) a = r) as'
                  = filter (\<lambda>a. rank_at (deck_heap d) a = r) as)
           \<and> traverse d = Some (Inr cs) \<and> traverse d' = Some (Inr cs')
           \<and> (\<forall>c. filter (card_eq c) cs' = filter (card_eq c) cs)
           \<and> (\<forall>pre b x xs. beforeHeadNode d # as = pre @ b # x # xs \<longrightarrow>
                (\<exists>us m vs. x # xs = us @ m # vs
                   \<and> findBeforeMin d (Some b) = Some (Inr (Some (last (b # us))))
                   \<and> (\<forall>u\<in>set us. card_less (card_at (deck_heap d) m) (card_at (deck_heap d) u))
                   \<and> (\<forall>v\<in>set vs. \<not> card_less (card_at (deck_heap d) v) (card_at (deck_heap d) m))))"
proof -
  let ?h = "deck_heap d"
  from stableSelectionSort_wf[OF assms] obtain d' as' where
    r: "stableSelectionSort d = Some (Inr d')" "wf_deck d' as'"
    "stable_sorted_of (rank_at ?h) as as'"
    "same_cards ?h (deck_heap d')"
    by blast
  from r(3) have fl: "\<And>r. filter (\<lambda>a. rank_at ?h a = r) as' = filter (\<lambda>a. rank_at ?h a = r) as"
    by (simp add: stable_sorted_of_def)
  have fc: "filter (card_eq c) (map (card_at (deck_heap d')) as')
          = filter (card_eq c) (map (card_at ?h) as)" for c
  proof -
    have ce: "card_eq c (card_at ?h a) = (rank_at ?h a = rank c)" for a
      by (auto simp: card_eq_def rank_at_def)
    have "filter (card_eq c) (map (card_at ?h) as') = map (card_at ?h) (filter (\<lambda>a. rank_at ?h a = rank c) as')"
      by (simp add: filter_map comp_def ce)
    also have "\<dots> = map (card_at ?h) (filter (\<lambda>a. rank_at ?h a = rank c) as)"
      by (simp only: fl)
    also have "\<dots> = filter (card_eq c) (map (card_at ?h) as)"
      by (simp add: filter_map comp_def ce)
    finally show ?thesis by (simp add: card_at_same_cards[OF r(4)])
  qed
  have step: "\<exists>us m vs. x # xs = us @ m # vs
                   \<and> findBeforeMin d (Some b) = Some (Inr (Some (last (b # us))))
                   \<and> (\<forall>u\<in>set us. card_less (card_at ?h m) (card_at ?h u))
                   \<and> (\<forall>v\<in>set vs. \<not> card_less (card_at ?h v) (card_at ?h m))"
    if "beforeHeadNode d # as = pre @ b # x # xs" for pre b x xs
  proof -
    from assms that have "lseg ?h (Some (beforeHeadNode d)) (pre @ b # x # xs) None"
      by (simp add: wf_deck_def deck_chain_def)
    then have "lseg ?h (Some b) (b # x # xs) None"
      by (auto simp: lseg_append)
    from findBeforeMin_chain[OF this] show ?thesis
      by (simp add: rank_at_def card_less_def not_less)
  qed
  show ?thesis
    using r(1,2,4) fl fc step traverse_wf_deck[OF assms] traverse_wf_deck[OF r(2)]
    by blast
qed

theorem stableSelectionSort_stable_witness:
  "wf_deck deck0 [1, 2, 3] \<and>
   (\<exists>d' as' cs cs'. stableSelectionSort deck0 = Some (Inr d') \<and> wf_deck d' as'
           \<and> same_cards (deck_heap deck0) (deck_heap d')
           \<and> (\<forall>r. filter (\<lambda>a. rank_at (deck_heap deck0) a = r) as'
                  = filter (\<lambda>a. rank_at (deck_heap deck0) a = r) [1, 2, 3])
           \<and> traverse deck0 = Some (Inr cs) \<and> traverse d' = Some (Inr cs')
           \<and> (\<forall>c. filter (card_eq c) cs' = filter (card_eq c) cs)
           \<and> (\<forall>pre b x xs. beforeHeadNode deck0 # [1, 2, 3] = pre @ b # x # xs \<longrightarrow>
                (\<exists>us m vs. x # xs = us @ m # vs
                   \<and> findBeforeMin deck0 (Some b) = Some (Inr (Some (last (b # us))))
                   \<and> (\<forall>u\<in>set us. card_less (card_at (deck_heap deck0) m) (card_at (deck_heap deck0) u))
                   \<and> (\<forall>v\<in>set vs. \<not> card_less (card_at (deck_heap deck0) v) (card_at (deck_heap deck0) m)))))"
  using stableSelectionSort_stable[OF wf_deck0] wf_deck0 by blast

section \<open>popFront and eraseAfter\<close>

lemma eraseAfter_chain:
  assumes ch: "lseg (deck_heap d) p (xs @ b # m # vs) None"
    and dist: "distinct (xs @ b # m # vs)"
  shows "\<exists>d'. eraseAfter (Some b) d = Inr d'
            \<and> lseg (deck_heap d') p (xs @ b # vs) None
            \<and> deck_heap d' m = None
            \<and> (\<forall>a. a \<noteq> m \<longrightarrow> map_option card_v (deck_heap d' a) = map_option card_v (deck_heap d a))
            \<and> beforeHeadNode d' = beforeHeadNode d \<and> deckSize d' = deckSize d - 1"
proof -
  from extractAfter_chain[OF ch dist] obtain d1 where
    ex: "extractAfter (Some b) d = Inr (Some m, d1)"
    and ch1: "lseg (deck_heap d1) p (xs @ b # vs) None"
    and sc: "same_cards (deck_heap d) (deck_heap d1)"
    and fr: "beforeHeadNode d1 = beforeHeadNode d" "deckSize d1 = deckSize d"
    by blast
  have "m \<in> dom (deck_heap d)" using lseg_dom[OF ch] by auto
  then have md: "m \<in> dom (deck_heap d1)" using same_cards_dom[OF sc] by simp
  let ?d' = "d1\<lparr>deck_heap := (deck_heap d1)(m := None), deckSize := deckSize d1 - 1\<rparr>"
  have er: "eraseAfter (Some b) d = Inr ?d'"
    using ex md by (simp add: eraseAfter_def delete_node_def)
  have "m \<notin> set (xs @ b # vs)" using dist by auto
  then have "lseg (deck_heap ?d') p (xs @ b # vs) None"
    using ch1 by (simp add: lseg_frame)
  moreover have "\<forall>a. a \<noteq> m \<longrightarrow> map_option card_v (deck_heap ?d' a) = map_option card_v (deck_heap d a)"
    using sc by (simp add: same_cards_def)
  ultimately show ?thesis using er fr by simp
qed

lemma eraseAfter_wf:
  assumes wf: "wf_deck d as" and i: "i < length as"
  shows "\<exists>d'. eraseAfter (Some ((beforeHeadNode d # as) ! i)) d = Inr d'
            \<and> wf_deck d' (take i as @ drop (Suc i) as)
            \<and> deck_size d' + 1 = deck_size d
            \<and> deck_heap d' (as ! i) = None
            \<and> (\<forall>a. a \<noteq> as ! i \<longrightarrow> map_option card_v (deck_heap d' a) = map_option card_v (deck_heap d a))"
proof -
  let ?s = "beforeHeadNode d" let ?L = "beforeHeadNode d # as"
  define xs where "xs = take i ?L"
  define b where "b = ?L ! i"
  define vs where "vs = drop (Suc i) as"
  have L: "?L = xs @ b # (as ! i) # vs"
  proof -
    have "?L = take i ?L @ ?L ! i # drop (Suc i) ?L"
      using i by (intro id_take_nth_drop) simp
    also have "drop (Suc i) ?L = drop i as" by simp
    also have "drop i as = as ! i # drop (Suc i) as" using i by (simp add: Cons_nth_drop_Suc)
    finally show ?thesis by (simp add: xs_def b_def vs_def)
  qed
  from wf have ch: "lseg (deck_heap d) (Some ?s) (xs @ b # (as ! i) # vs) None"
    and di: "distinct (xs @ b # (as ! i) # vs)" and sz: "deckSize d = length as"
    unfolding wf_deck_def deck_chain_def L[symmetric] by simp_all
  from eraseAfter_chain[OF ch di] obtain d' where
    r: "eraseAfter (Some b) d = Inr d'"
    "lseg (deck_heap d') (Some ?s) (xs @ b # vs) None"
    "deck_heap d' (as ! i) = None"
    "\<forall>a. a \<noteq> as ! i \<longrightarrow> map_option card_v (deck_heap d' a) = map_option card_v (deck_heap d a)"
    "beforeHeadNode d' = ?s" "deckSize d' = deckSize d - 1"
    by blast
  have L': "xs @ b # vs = ?s # take i as @ drop (Suc i) as"
  proof (cases i)
    case 0
    then show ?thesis by (simp add: xs_def b_def vs_def)
  next
    case (Suc j)
    then have "j < length as" using i by simp
    then have "take (Suc j) as = take j as @ [as ! j]" by (rule take_Suc_conv_app_nth)
    then show ?thesis using Suc by (simp add: xs_def b_def vs_def)
  qed
  have "distinct (xs @ b # vs)" using di by auto
  then have di': "distinct (?s # take i as @ drop (Suc i) as)" by (simp only: L')
  have ch': "lseg (deck_heap d') (Some ?s) (?s # take i as @ drop (Suc i) as) None"
    using r(2) by (simp only: L')
  have len: "length (take i as @ drop (Suc i) as) = length as - 1" using i by simp
  have "wf_deck d' (take i as @ drop (Suc i) as)"
    unfolding wf_deck_def deck_chain_def r(5) r(6) sz len using ch' di' by simp
  moreover have "deck_size d' + 1 = deck_size d"
    using r(6) sz i by (simp add: deck_size_def)
  ultimately show ?thesis using r(1,3,4) by (auto simp: b_def)
qed

lemma extractAfter_no_successor:
  "deck_heap d p = Some n \<Longrightarrow> next n = None \<Longrightarrow> extractAfter (Some p) d = Inl AssertionFailed"
  by (simp add: extractAfter_def next_it_Some)

text \<open>
  Claim C10. \<open>popFront\<close> and \<open>eraseAfter\<close> need a successor to remove. On a well-formed
  deck with first node \<open>a\<close>, \<open>popFront\<close> returns a well-formed deck on the remaining nodes:
  the first card is gone (its node released), the other cards follow in their order, and
  \<open>size()\<close> is one less. On a well-formed empty deck \<open>popFront\<close> fails the assertion, and so
  does \<open>eraseAfter\<close> at any node without successor. At a position of a well-formed deck
  that has a successor, \<open>eraseAfter\<close> returns: the error branch is not reached.
\<close>

theorem popFront_eraseAfter_successor:
  "(wf_deck d (a # as) \<longrightarrow>
      (\<exists>d'. popFront d = Inr d' \<and> wf_deck d' as \<and> deck_size d' + 1 = deck_size d
         \<and> deck_heap d' a = None
         \<and> traverse d = Some (Inr (card_at (deck_heap d) a # map (card_at (deck_heap d)) as))
         \<and> traverse d' = Some (Inr (map (card_at (deck_heap d)) as))))
   \<and> (wf_deck d [] \<longrightarrow> popFront d = Inl AssertionFailed)
   \<and> (deck_heap d p = Some n \<and> next n = None \<longrightarrow> eraseAfter (Some p) d = Inl AssertionFailed)
   \<and> (wf_deck d bs \<and> i < length bs \<longrightarrow>
        (\<exists>d'. eraseAfter (Some ((beforeHeadNode d # bs) ! i)) d = Inr d'
           \<and> wf_deck d' (take i bs @ drop (Suc i) bs) \<and> deck_size d' + 1 = deck_size d))"
proof (intro conjI impI)
  assume wf: "wf_deck d (a # as)"
  from eraseAfter_wf[OF wf, of 0] obtain d' where
    r: "popFront d = Inr d'" "wf_deck d' as" "deck_size d' + 1 = deck_size d"
    "deck_heap d' a = None"
    "\<forall>x. x \<noteq> a \<longrightarrow> map_option card_v (deck_heap d' x) = map_option card_v (deck_heap d x)"
    by (auto simp: popFront_def beforeBegin_def)
  from wf have "a \<notin> set as" by (simp add: wf_deck_def deck_chain_def)
  then have "\<forall>x\<in>set as. card_at (deck_heap d') x = card_at (deck_heap d) x"
    using r(5) unfolding card_at_def by (metis option.map_sel option.map_disc_iff)
  then have "map (card_at (deck_heap d')) as = map (card_at (deck_heap d)) as" by simp
  with traverse_wf_deck[OF r(2)] traverse_wf_deck[OF wf] r(1-4)
  show "\<exists>d'. popFront d = Inr d' \<and> wf_deck d' as \<and> deck_size d' + 1 = deck_size d
         \<and> deck_heap d' a = None
         \<and> traverse d = Some (Inr (card_at (deck_heap d) a # map (card_at (deck_heap d)) as))
         \<and> traverse d' = Some (Inr (map (card_at (deck_heap d)) as))"
    by auto
next
  assume "wf_deck d []"
  then obtain n where "deck_heap d (beforeHeadNode d) = Some n" "next n = None"
    by (auto simp: wf_deck_def deck_chain_def)
  then show "popFront d = Inl AssertionFailed"
    by (simp add: popFront_def beforeBegin_def eraseAfter_def extractAfter_no_successor)
next
  assume "deck_heap d p = Some n \<and> next n = None"
  then show "eraseAfter (Some p) d = Inl AssertionFailed"
    by (simp add: eraseAfter_def extractAfter_no_successor)
next
  assume "wf_deck d bs \<and> i < length bs"
  then have "wf_deck d bs" "i < length bs" by simp_all
  from eraseAfter_wf[OF this]
  show "\<exists>d'. eraseAfter (Some ((beforeHeadNode d # bs) ! i)) d = Inr d'
           \<and> wf_deck d' (take i bs @ drop (Suc i) bs) \<and> deck_size d' + 1 = deck_size d"
    by blast
qed

lemma wf_Deck_new: "wf_deck (Deck_new s) []"
  by (simp add: wf_deck_def deck_chain_def Deck_new_def)

theorem popFront_eraseAfter_successor_witness:
  "wf_deck deck0 (1 # [2, 3])
   \<and> (\<exists>d'. popFront deck0 = Inr d' \<and> wf_deck d' [2, 3] \<and> deck_size d' + 1 = deck_size deck0
         \<and> deck_heap d' 1 = None
         \<and> traverse deck0 = Some (Inr (card_at (deck_heap deck0) 1 # map (card_at (deck_heap deck0)) [2, 3]))
         \<and> traverse d' = Some (Inr (map (card_at (deck_heap deck0)) [2, 3])))
   \<and> wf_deck (Deck_new 0) [] \<and> popFront (Deck_new 0) = Inl AssertionFailed
   \<and> deck_heap deck0 3 = Some \<lparr>card_v = \<lparr>suite = CLUB, rank = THREE\<rparr>, next = None\<rparr>
   \<and> eraseAfter (Some 3) deck0 = Inl AssertionFailed
   \<and> (\<exists>d'. eraseAfter (Some ((beforeHeadNode deck0 # [1, 2, 3]) ! 1)) deck0 = Inr d'
           \<and> wf_deck d' (take 1 [1, 2, 3] @ drop (Suc 1) [1, 2, 3])
           \<and> deck_size d' + 1 = deck_size deck0)"
proof -
  have h3: "deck_heap deck0 3 = Some \<lparr>card_v = \<lparr>suite = CLUB, rank = THREE\<rparr>, next = None\<rparr>"
    by (simp add: deck0_def)
  have l: "(1::nat) < length [1::nat, 2, 3]" by simp
  note t1 = popFront_eraseAfter_successor[of deck0 1 "[2, 3]" 3
      "\<lparr>card_v = \<lparr>suite = CLUB, rank = THREE\<rparr>, next = None\<rparr>" "[1, 2, 3]" 1]
  note t2 = popFront_eraseAfter_successor[of "Deck_new 0" 1 "[]" 0 undefined "[]" 0]
  from t1 have a: "\<exists>d'. popFront deck0 = Inr d' \<and> wf_deck d' [2, 3] \<and> deck_size d' + 1 = deck_size deck0
         \<and> deck_heap d' 1 = None
         \<and> traverse deck0 = Some (Inr (card_at (deck_heap deck0) 1 # map (card_at (deck_heap deck0)) [2, 3]))
         \<and> traverse d' = Some (Inr (map (card_at (deck_heap deck0)) [2, 3]))"
    using wf_deck0 by blast
  from t1 have b: "eraseAfter (Some 3) deck0 = Inl AssertionFailed"
    using h3 by simp
  from t1 have c: "\<exists>d'. eraseAfter (Some ((beforeHeadNode deck0 # [1, 2, 3]) ! 1)) deck0 = Inr d'
           \<and> wf_deck d' (take 1 [1, 2, 3] @ drop (Suc 1) [1, 2, 3])
           \<and> deck_size d' + 1 = deck_size deck0"
    using wf_deck0 l by blast
  from t2 have e: "popFront (Deck_new 0) = Inl AssertionFailed"
    using wf_Deck_new by blast
  show ?thesis using a b c e wf_deck0 wf_Deck_new h3 by blast
qed

section \<open>shuffle: the forward Fisher-Yates pass\<close>

text \<open>
  On the list of cards one loop iteration is \<open>swap_at i j\<close>; \<open>fisher_yates js\<close> runs the
  iterations \<open>i = 0, \<dots>, n - 1\<close> with the offsets \<open>js\<close>. \<open>choices gen n\<close> is the offset
  sequence the random source yields for a deck of \<open>n\<close> cards.
\<close>

definition swap_at :: "nat \<Rightarrow> nat \<Rightarrow> 'a list \<Rightarrow> 'a list" where
  "swap_at i j xs = (xs[i := xs ! j])[j := xs ! i]"

definition fy_steps :: "(nat \<Rightarrow> nat) \<Rightarrow> nat \<Rightarrow> nat \<Rightarrow> 'a list \<Rightarrow> 'a list" where
  "fy_steps J i n xs = foldl (\<lambda>ys k. swap_at k (J k) ys) xs [i..<n]"

definition fisher_yates :: "nat list \<Rightarrow> 'a list \<Rightarrow> 'a list" where
  "fisher_yates js xs = fy_steps (\<lambda>k. js ! k) 0 (length xs) xs"

definition choices :: "(nat \<Rightarrow> int \<times> int \<Rightarrow> int) \<Rightarrow> nat \<Rightarrow> nat list" where
  "choices gen n = map (\<lambda>k. nat (gen k (int k, int n - 1))) [0..<n]"

definition valid_choices :: "nat \<Rightarrow> nat list \<Rightarrow> bool" where
  "valid_choices n js = (length js = n \<and> (\<forall>i<n. i \<le> js ! i \<and> js ! i < n))"

lemma length_swap_at [simp]: "length (swap_at i j xs) = length xs"
  by (simp add: swap_at_def)

lemma mset_swap_at:
  "i < length xs \<Longrightarrow> j < length xs \<Longrightarrow> mset (swap_at i j xs) = mset xs"
  unfolding swap_at_def by (rule mset_swap)

lemma swap_at_nth_i:
  "i < length xs \<Longrightarrow> j < length xs \<Longrightarrow> swap_at i j xs ! i = xs ! j"
  by (cases "i = j") (simp_all add: swap_at_def)

lemma take_swap_at:
  "m \<le> i \<Longrightarrow> m \<le> j \<Longrightarrow> take m (swap_at i j xs) = take m xs"
  by (simp add: swap_at_def)

lemma swap_at_map:
  "i < length xs \<Longrightarrow> j < length xs \<Longrightarrow> swap_at i j (map f xs) = map f (swap_at i j xs)"
  by (simp add: swap_at_def map_update)

lemma fy_steps_stop: "n \<le> i \<Longrightarrow> fy_steps J i n xs = xs"
  by (simp add: fy_steps_def)

lemma fy_steps_step:
  "i < n \<Longrightarrow> fy_steps J i n xs = fy_steps J (Suc i) n (swap_at i (J i) xs)"
  by (simp add: fy_steps_def upt_conv_Cons)

lemma fy_steps_cong:
  "(\<And>k. i \<le> k \<Longrightarrow> k < n \<Longrightarrow> J k = J' k) \<Longrightarrow> fy_steps J i n xs = fy_steps J' i n xs"
  unfolding fy_steps_def by (rule foldl_cong) auto

lemma fy_steps_split:
  "i \<le> m \<Longrightarrow> m \<le> n \<Longrightarrow> fy_steps J i n xs = fy_steps J m n (fy_steps J i m xs)"
proof -
  assume "i \<le> m" "m \<le> n"
  then have "[i..<n] = [i..<m] @ [m..<n]"
    by (metis le_Suc_ex upt_add_eq_append)
  then show ?thesis by (simp add: fy_steps_def)
qed

lemma length_fy_steps [simp]: "length (fy_steps J i n xs) = length xs"
proof (induction "n - i" arbitrary: i xs)
  case 0
  then show ?case by (simp add: fy_steps_stop)
next
  case (Suc d)
  then have "i < n" "d = n - Suc i" by simp_all
  then show ?case using Suc.hyps(1)[of "Suc i"] by (simp add: fy_steps_step)
qed

lemma fy_steps_props:
  assumes "\<And>k. i \<le> k \<Longrightarrow> k < m \<Longrightarrow> k \<le> J k \<and> J k < length xs"
  shows "mset (fy_steps J i m xs) = mset xs \<and> take i (fy_steps J i m xs) = take i xs"
  using assms
proof (induction "m - i" arbitrary: i xs)
  case 0
  then show ?case by (simp add: fy_steps_stop)
next
  case (Suc d)
  then have lt: "i < m" and d: "d = m - Suc i" by simp_all
  from Suc.prems(1)[of i] lt have Ji: "i \<le> J i" "J i < length xs" by simp_all
  let ?zs = "swap_at i (J i) xs"
  have IH: "mset (fy_steps J (Suc i) m ?zs) = mset ?zs
            \<and> take (Suc i) (fy_steps J (Suc i) m ?zs) = take (Suc i) ?zs"
    using Suc.hyps(1)[OF d, of ?zs] Suc.prems by simp
  have "take i (fy_steps J (Suc i) m ?zs) = take i (take (Suc i) (fy_steps J (Suc i) m ?zs))"
    by (simp add: min_def)
  also have "\<dots> = take i (take (Suc i) ?zs)" using IH by simp
  also have "\<dots> = take i xs" using Ji by (simp add: min_def take_swap_at)
  finally have tk: "take i (fy_steps J (Suc i) m ?zs) = take i xs" .
  have "mset ?zs = mset xs" using Ji by (intro mset_swap_at) simp_all
  with IH tk show ?case using lt by (simp add: fy_steps_step)
qed

lemma fy_steps_map:
  assumes "\<And>k. i \<le> k \<Longrightarrow> k < n \<Longrightarrow> J k < n" "n = length xs"
  shows "fy_steps J i n (map f xs) = map f (fy_steps J i n xs)"
  using assms
proof (induction "n - i" arbitrary: i xs)
  case 0
  then show ?case by (simp add: fy_steps_stop)
next
  case (Suc d)
  then have lt: "i < n" and d: "d = n - Suc i" by simp_all
  from Suc.prems(1)[of i] lt have Ji: "J i < n" by simp
  have "fy_steps J (Suc i) n (map f (swap_at i (J i) xs)) = map f (fy_steps J (Suc i) n (swap_at i (J i) xs))"
    using Suc.hyps(1)[OF d, of "swap_at i (J i) xs"] Suc.prems by simp
  then show ?case using lt Ji Suc.prems(2) by (simp add: fy_steps_step swap_at_map)
qed

lemma fisher_yates_positions:
  assumes "valid_choices (length xs) js"
  shows "fisher_yates js xs = map ((!) xs) (fisher_yates js [0..<length xs])"
proof -
  have "fy_steps ((!) js) 0 (length xs) (map ((!) xs) [0..<length xs])
        = map ((!) xs) (fy_steps ((!) js) 0 (length xs) [0..<length xs])"
    using assms by (intro fy_steps_map) (auto simp: valid_choices_def)
  then show ?thesis by (simp add: fisher_yates_def map_nth)
qed

lemma fy_steps_nth:
  assumes "\<And>k. i \<le> k \<Longrightarrow> k < n \<Longrightarrow> k \<le> J k \<and> J k < n" "n = length xs" "i < n"
  shows "fy_steps J i n xs ! i = xs ! J i"
proof -
  from assms(1)[of i] assms(3) have Ji: "i \<le> J i" "J i < n" by simp_all
  let ?zs = "swap_at i (J i) xs"
  have "take (Suc i) (fy_steps J (Suc i) n ?zs) = take (Suc i) ?zs"
    using fy_steps_props[of "Suc i" n J ?zs] assms by simp
  then have "take (Suc i) (fy_steps J (Suc i) n ?zs) ! i = take (Suc i) ?zs ! i" by simp
  then have "fy_steps J (Suc i) n ?zs ! i = ?zs ! i" by simp
  then show ?thesis using assms(2,3) Ji by (simp add: fy_steps_step swap_at_nth_i)
qed

lemma fy_steps_inj:
  assumes J: "\<And>k. k < n \<Longrightarrow> k \<le> J k \<and> J k < n" and J': "\<And>k. k < n \<Longrightarrow> k \<le> J' k \<and> J' k < n"
    and n: "n = length xs" and dist: "distinct xs"
    and eq: "fy_steps J 0 n xs = fy_steps J' 0 n xs"
  shows "k < n \<Longrightarrow> J k = J' k"
proof (induction k rule: less_induct)
  case (less i)
  then have prev: "\<And>k. k < i \<Longrightarrow> J k = J' k" by simp
  let ?ys = "fy_steps J 0 i xs"
  have ys': "fy_steps J' 0 i xs = ?ys"
    by (rule fy_steps_cong[symmetric]) (simp add: prev)
  have lenys: "n = length ?ys" using n by simp
  have "mset ?ys = mset xs"
    using fy_steps_props[of 0 i J xs] J less.prems n by simp
  then have dys: "distinct ?ys" using dist by (metis mset_eq_imp_distinct_iff)
  have a: "fy_steps J 0 n xs ! i = ?ys ! J i"
  proof -
    have "fy_steps J 0 n xs = fy_steps J i n ?ys"
      using less.prems by (intro fy_steps_split) simp_all
    then show ?thesis using fy_steps_nth[of i n J ?ys] J lenys less.prems by simp
  qed
  have b: "fy_steps J' 0 n xs ! i = ?ys ! J' i"
  proof -
    have "fy_steps J' 0 n xs = fy_steps J' i n (fy_steps J' 0 i xs)"
      using less.prems by (intro fy_steps_split) simp_all
    then show ?thesis using fy_steps_nth[of i n J' ?ys] J' lenys less.prems ys' by simp
  qed
  from a b eq have "?ys ! J i = ?ys ! J' i" by simp
  moreover have "J i < length ?ys" "J' i < length ?ys"
    using J[OF less.prems] J'[OF less.prems] lenys by simp_all
  ultimately show ?case using dys by (simp add: nth_eq_iff_index_eq)
qed

lemma fy_steps_surj:
  assumes "i \<le> n" "n = length ys" "distinct ys" "mset ps = mset ys" "take i ps = take i ys"
  shows "\<exists>J. (\<forall>k. i \<le> k \<and> k < n \<longrightarrow> k \<le> J k \<and> J k < n) \<and> fy_steps J i n ys = ps"
  using assms
proof (induction "n - i" arbitrary: i ys)
  case 0
  then have "i = n" by simp
  moreover have "length ps = length ys" using "0.prems"(4) by (rule mset_eq_length)
  ultimately have "ps = ys" using "0.prems"(2,5) by simp
  then show ?case using \<open>i = n\<close> by (simp add: fy_steps_stop)
next
  case (Suc d)
  then have lt: "i < n" and d: "d = n - Suc i" by simp_all
  have lenps: "length ps = n" using Suc.prems(2,4) by (metis mset_eq_length)
  have dps: "distinct ps" using Suc.prems(3,4) by (metis mset_eq_imp_distinct_iff)
  have "ps ! i \<in> set ps" using lt lenps by simp
  then have "ps ! i \<in> set ys" using Suc.prems(4) by (metis mset_eq_setD)
  then obtain j where j: "j < n" "ys ! j = ps ! i"
    using Suc.prems(2) by (auto simp: in_set_conv_nth)
  have ij: "i \<le> j"
  proof (rule ccontr)
    assume "\<not> i \<le> j"
    then have ji: "j < i" by simp
    then have "ys ! j = take i ys ! j" by simp
    also have "\<dots> = ps ! j" using ji by (simp flip: Suc.prems(5))
    finally have "ps ! j = ps ! i" using j(2) by simp
    then show False using dps ji lt lenps by (simp add: nth_eq_iff_index_eq)
  qed
  let ?zs = "swap_at i j ys"
  have zi: "?zs ! i = ps ! i" using lt j Suc.prems(2) by (simp add: swap_at_nth_i)
  have "take (Suc i) ?zs = take i ?zs @ [?zs ! i]"
    using lt Suc.prems(2) by (simp add: take_Suc_conv_app_nth)
  also have "take i ?zs = take i ps" using ij Suc.prems(5) by (simp add: take_swap_at)
  also have "take i ps @ [?zs ! i] = take (Suc i) ps"
    using lt lenps zi by (simp add: take_Suc_conv_app_nth)
  finally have tk: "take (Suc i) ps = take (Suc i) ?zs" by simp
  have mz: "mset ?zs = mset ys" using lt j(1) Suc.prems(2) by (intro mset_swap_at) simp_all
  then have dz: "distinct ?zs" using Suc.prems(3) by (metis mset_eq_imp_distinct_iff)
  have "\<exists>J. (\<forall>k. Suc i \<le> k \<and> k < n \<longrightarrow> k \<le> J k \<and> J k < n) \<and> fy_steps J (Suc i) n ?zs = ps"
    using Suc.hyps(1)[OF d, of ?zs] lt Suc.prems(2,4) dz mz tk by simp
  then obtain J' where J': "\<forall>k. Suc i \<le> k \<and> k < n \<longrightarrow> k \<le> J' k \<and> J' k < n"
    "fy_steps J' (Suc i) n ?zs = ps" by blast
  let ?J = "J'(i := j)"
  have "fy_steps ?J i n ys = fy_steps ?J (Suc i) n ?zs" using lt by (simp add: fy_steps_step)
  also have "\<dots> = fy_steps J' (Suc i) n ?zs" by (rule fy_steps_cong) simp
  finally have "fy_steps ?J i n ys = ps" using J'(2) by simp
  moreover have "\<forall>k. i \<le> k \<and> k < n \<longrightarrow> k \<le> ?J k \<and> ?J k < n"
    using J'(1) ij j(1) by (auto simp: le_Suc_eq)
  ultimately show ?case by blast
qed

lemma fisher_yates_bij:
  assumes "distinct xs"
  shows "bij_betw (\<lambda>js. fisher_yates js xs) {js. valid_choices (length xs) js}
           {ps. mset ps = mset xs}"
  unfolding bij_betw_def
proof (intro conjI)
  let ?n = "length xs"
  show "inj_on (\<lambda>js. fisher_yates js xs) {js. valid_choices ?n js}"
  proof (rule inj_onI)
    fix js js'
    assume v: "js \<in> {js. valid_choices ?n js}" "js' \<in> {js. valid_choices ?n js}"
      and eq: "fisher_yates js xs = fisher_yates js' xs"
    have "js ! k = js' ! k" if "k < ?n" for k
    proof (rule fy_steps_inj[of ?n "(!) js" "(!) js'" xs, OF _ _ refl assms _ that])
      show "\<And>k. k < ?n \<Longrightarrow> k \<le> js ! k \<and> js ! k < ?n" using v(1) by (simp add: valid_choices_def)
      show "\<And>k. k < ?n \<Longrightarrow> k \<le> js' ! k \<and> js' ! k < ?n" using v(2) by (simp add: valid_choices_def)
      show "fy_steps ((!) js) 0 ?n xs = fy_steps ((!) js') 0 ?n xs"
        using eq by (simp add: fisher_yates_def)
    qed
    moreover have "length js = length js'" using v by (simp add: valid_choices_def)
    ultimately show "js = js'" using v(1) by (simp add: valid_choices_def nth_equalityI)
  qed
  show "(\<lambda>js. fisher_yates js xs) ` {js. valid_choices ?n js} = {ps. mset ps = mset xs}"
  proof (intro set_eqI iffI)
    fix ps
    assume "ps \<in> (\<lambda>js. fisher_yates js xs) ` {js. valid_choices ?n js}"
    then obtain js where js: "valid_choices ?n js" "ps = fisher_yates js xs" by auto
    have "mset (fy_steps ((!) js) 0 ?n xs) = mset xs"
      using fy_steps_props[of 0 ?n "(!) js" xs] js(1) by (simp add: valid_choices_def)
    then show "ps \<in> {ps. mset ps = mset xs}" using js(2) by (simp add: fisher_yates_def)
  next
    fix ps
    assume "ps \<in> {ps. mset ps = mset xs}"
    then have ms: "mset ps = mset xs" by simp
    from fy_steps_surj[of 0 ?n xs ps, OF _ refl assms ms] obtain J where
      J: "\<forall>k. k < ?n \<longrightarrow> k \<le> J k \<and> J k < ?n" "fy_steps J 0 ?n xs = ps" by auto
    let ?js = "map J [0..<?n]"
    have "valid_choices ?n ?js" using J(1) by (simp add: valid_choices_def)
    moreover have "fy_steps ((!) ?js) 0 ?n xs = fy_steps J 0 ?n xs"
      by (rule fy_steps_cong) simp
    ultimately show "ps \<in> (\<lambda>js. fisher_yates js xs) ` {js. valid_choices ?n js}"
      using J(2) by (auto simp: fisher_yates_def image_iff intro!: exI[of _ ?js])
  qed
qed

definition same_links :: "(addr \<rightharpoonup> Node) \<Rightarrow> (addr \<rightharpoonup> Node) \<Rightarrow> bool" where
  "same_links h h' = (\<forall>a. map_option next (h' a) = map_option next (h a))"

lemma lseg_same_links:
  "same_links h h' \<Longrightarrow> lseg h' p as q = lseg h p as q"
proof (induction as arbitrary: p)
  case Nil
  then show ?case by simp
next
  case (Cons a as)
  have "map_option next (h' a) = map_option next (h a)"
    using Cons.prems by (simp add: same_links_def)
  then have "(\<exists>n. h' a = Some n \<and> lseg h' (next n) as q) = (\<exists>n. h a = Some n \<and> lseg h (next n) as q)"
    using Cons.IH[OF Cons.prems] by (cases "h a"; cases "h' a") auto
  then show ?case by simp
qed

lemma advance_lseg:
  "lseg (deck_heap d) p as None \<Longrightarrow> j < length as \<Longrightarrow> advance d p j = Inr (Some (as ! j))"
proof (induction as arbitrary: p j)
  case Nil
  then show ?case by simp
next
  case (Cons a as)
  then obtain n where n: "p = Some a" "deck_heap d a = Some n" "lseg (deck_heap d) (next n) as None"
    by auto
  show ?case
  proof (cases j)
    case 0
    then show ?thesis using n by simp
  next
    case (Suc j')
    then show ?thesis using n Cons.IH[OF n(3), of j'] Cons.prems(2) by (simp add: next_it_Some)
  qed
qed

lemma map_fun_upd_swap:
  assumes "distinct as" "i < length as" "j < length as"
  shows "map ((f(as ! i := f (as ! j)))(as ! j := f (as ! i))) as = swap_at i j (map f as)"
proof (rule nth_equalityI)
  show "length (map ((f(as ! i := f (as ! j)))(as ! j := f (as ! i))) as) = length (swap_at i j (map f as))"
    by simp
next
  fix k
  assume "k < length (map ((f(as ! i := f (as ! j)))(as ! j := f (as ! i))) as)"
  then have k: "k < length as" by simp
  then have "(as ! k = as ! i) = (k = i)" "(as ! k = as ! j) = (k = j)"
    using assms by (simp_all add: nth_eq_iff_index_eq)
  then show "map ((f(as ! i := f (as ! j)))(as ! j := f (as ! i))) as ! k = swap_at i j (map f as) ! k"
    using k assms(2,3) by (simp add: swap_at_def nth_list_update)
qed

lemma iter_swap_nodes:
  assumes "deck_heap d a = Some na" "deck_heap d b = Some nb"
  shows "\<exists>d'. iter_swap (Some a) (Some b) d = Inr d'
           \<and> same_links (deck_heap d) (deck_heap d')
           \<and> card_at (deck_heap d') = ((card_at (deck_heap d))(a := card_at (deck_heap d) b))(b := card_at (deck_heap d) a)
           \<and> beforeHeadNode d' = beforeHeadNode d \<and> deckSize d' = deckSize d"
proof (cases "a = b")
  case True
  then show ?thesis using assms
    by (auto simp: iter_swap_def deref_Some store_card_def same_links_def card_at_def fun_eq_iff)
next
  case False
  then show ?thesis using assms
    by (auto simp: iter_swap_def deref_Some store_card_def same_links_def card_at_def fun_eq_iff)
qed

lemma wf_deck_same_links:
  "wf_deck d as \<Longrightarrow> same_links (deck_heap d) (deck_heap d') \<Longrightarrow>
   beforeHeadNode d' = beforeHeadNode d \<Longrightarrow> deckSize d' = deckSize d \<Longrightarrow> wf_deck d' as"
  by (simp add: wf_deck_def deck_chain_def lseg_same_links del: lseg.simps)

lemma same_links_refl: "same_links h h"
  by (simp add: same_links_def)

lemma same_links_trans: "same_links h h1 \<Longrightarrow> same_links h1 h2 \<Longrightarrow> same_links h h2"
  by (simp add: same_links_def)

lemma wf_deck_begin:
  "wf_deck d as \<Longrightarrow> \<exists>p. begin_it d = Inr p \<and> lseg (deck_heap d) p as None"
  by (auto simp: wf_deck_def deck_chain_def begin_it_def beforeBegin_def next_it_Some)

lemma lseg_next_nth:
  "lseg h p as None \<Longrightarrow> i < length as \<Longrightarrow>
   \<exists>n. h (as ! i) = Some n \<and> next n = (if Suc i < length as then Some (as ! Suc i) else None)"
proof (induction as arbitrary: p i)
  case Nil
  then show ?case by simp
next
  case (Cons a as)
  then obtain n where n: "p = Some a" "h a = Some n" "lseg h (next n) as None" by auto
  show ?case
  proof (cases i)
    case 0
    then show ?thesis using n by (cases as) auto
  next
    case (Suc i')
    then show ?thesis using Cons.IH[OF n(3), of i'] Cons.prems(2) by auto
  qed
qed

definition pos_ptr :: "addr list \<Rightarrow> nat \<Rightarrow> addr option" where
  "pos_ptr as i = (if i < length as then Some (as ! i) else None)"

lemma shuffle_loop_chain:
  assumes "wf_deck d as" "i \<le> length as"
    and "\<And>k. i \<le> k \<Longrightarrow> k < length as \<Longrightarrow>
           int k \<le> gen k (int k, int (length as) - 1) \<and> gen k (int k, int (length as) - 1) \<le> int (length as) - 1"
  shows "\<exists>d'. shuffle_loop gen i (pos_ptr as i) d = Some (Inr d') \<and> wf_deck d' as
           \<and> same_links (deck_heap d) (deck_heap d')
           \<and> map (card_at (deck_heap d')) as
             = fy_steps (\<lambda>k. nat (gen k (int k, int (length as) - 1))) i (length as)
                 (map (card_at (deck_heap d)) as)"
  using assms
proof (induction "length as - i" arbitrary: i d)
  case 0
  then have "pos_ptr as i = None" by (simp add: pos_ptr_def)
  then have "shuffle_loop gen i (pos_ptr as i) d = Some (Inr d)"
    by (subst shuffle_loop.simps) (simp add: end_it_def)
  with 0 show ?case by (auto simp: fy_steps_stop same_links_refl)
next
  case (Suc m)
  let ?n = "length as" let ?h = "deck_heap d"
  let ?J = "\<lambda>k. nat (gen k (int k, int ?n - 1))"
  from Suc have lt: "i < ?n" and m: "m = ?n - Suc i" by simp_all
  from Suc.prems(3)[of i] lt have rng: "int i \<le> gen i (int i, int ?n - 1)" "gen i (int i, int ?n - 1) \<le> int ?n - 1"
    by simp_all
  then have Ji: "?J i < ?n" "0 \<le> gen i (int i, int ?n - 1)" by linarith+
  from wf_deck_begin[OF Suc.prems(1)] obtain p where p: "begin_it d = Inr p" "lseg ?h p as None"
    by blast
  have sz: "deck_size d = ?n" using Suc.prems(1) by (simp add: deck_size_def wf_deck_def)
  have adv: "std_next d p (gen i (int i, int ?n - 1)) = Inr (Some (as ! ?J i))"
    using Ji advance_lseg[OF p(2) Ji(1)] by (simp add: std_next_def)
  have "set as \<subseteq> dom ?h" using p(2) by (rule lseg_dom)
  then obtain na nb where na: "?h (as ! i) = Some na" and nb: "?h (as ! ?J i) = Some nb"
    using lt Ji(1) by (metis domD nth_mem subsetD)
  from iter_swap_nodes[OF na nb] obtain d1 where
    d1: "iter_swap (Some (as ! i)) (Some (as ! ?J i)) d = Inr d1"
    "same_links ?h (deck_heap d1)"
    "card_at (deck_heap d1) = ((card_at ?h)(as ! i := card_at ?h (as ! ?J i)))(as ! ?J i := card_at ?h (as ! i))"
    "beforeHeadNode d1 = beforeHeadNode d" "deckSize d1 = deckSize d"
    by blast
  have wf1: "wf_deck d1 as" using Suc.prems(1) d1(2,4,5) by (rule wf_deck_same_links)
  have "lseg (deck_heap d1) p as None" using p(2) d1(2) by (simp add: lseg_same_links)
  from lseg_next_nth[OF this lt] obtain n1 where
    n1: "deck_heap d1 (as ! i) = Some n1" "next n1 = pos_ptr as (Suc i)"
    by (auto simp: pos_ptr_def)
  have step: "shuffle_loop gen i (pos_ptr as i) d = shuffle_loop gen (Suc i) (pos_ptr as (Suc i)) d1"
    using lt p(1) adv d1(1) n1 sz
    by (subst shuffle_loop.simps) (simp add: pos_ptr_def end_it_def next_it_Some)
  have "\<exists>d'. shuffle_loop gen (Suc i) (pos_ptr as (Suc i)) d1 = Some (Inr d') \<and> wf_deck d' as
           \<and> same_links (deck_heap d1) (deck_heap d')
           \<and> map (card_at (deck_heap d')) as
             = fy_steps ?J (Suc i) ?n (map (card_at (deck_heap d1)) as)"
    using Suc.hyps(1)[OF m wf1] lt Suc.prems(3) by simp
  then obtain d' where d': "shuffle_loop gen (Suc i) (pos_ptr as (Suc i)) d1 = Some (Inr d')"
    "wf_deck d' as" "same_links (deck_heap d1) (deck_heap d')"
    "map (card_at (deck_heap d')) as = fy_steps ?J (Suc i) ?n (map (card_at (deck_heap d1)) as)"
    by blast
  have dist: "distinct as" using Suc.prems(1) by (simp add: wf_deck_def deck_chain_def)
  have "map (card_at (deck_heap d1)) as = swap_at i (?J i) (map (card_at ?h) as)"
    unfolding d1(3) using dist lt Ji(1) by (rule map_fun_upd_swap)
  then have "map (card_at (deck_heap d')) as = fy_steps ?J i ?n (map (card_at ?h) as)"
    using d'(4) lt by (simp add: fy_steps_step)
  with step d'(1,2) same_links_trans[OF d1(2) d'(3)] show ?case by auto
qed

text \<open>A random source that always returns the upper end of the range.\<close>

definition draw_last :: "nat \<Rightarrow> int \<times> int \<Rightarrow> int" where
  "draw_last k p = snd p"

text \<open>
  Claim C7. Given a random source whose \<open>k\<close>-th draw lies in the requested range
  \<open>[k, size - 1]\<close>, \<open>shuffle\<close> returns on every well-formed deck; the nodes and their links
  are unchanged and the cards traversed afterwards are \<open>fisher_yates js cs\<close>, where \<open>cs\<close>
  are the cards before and \<open>js\<close> the offsets drawn: for \<open>i = 0, \<dots>, size - 1\<close> in this
  order, the cards at positions \<open>i\<close> and \<open>js ! i\<close> are swapped, \<open>i \<le> js ! i < size\<close>.
  The output is the input read through the permutation of positions
  \<open>fisher_yates js [0..<size]\<close>, and for a fixed size the map from valid offset sequences
  to these permutations is a bijection onto all permutations of the positions; so an
  unbiased source yields every permutation with the same probability.
\<close>

theorem shuffle_fisher_yates:
  assumes "wf_deck d as"
    and "\<forall>k<length as. int k \<le> gen k (int k, int (length as) - 1)
                       \<and> gen k (int k, int (length as) - 1) \<le> int (length as) - 1"
  shows "\<exists>d' cs. shuffle gen d = Some (Inr d') \<and> wf_deck d' as
           \<and> same_links (deck_heap d) (deck_heap d')
           \<and> valid_choices (length as) (choices gen (length as))
           \<and> traverse d = Some (Inr cs)
           \<and> traverse d' = Some (Inr (fisher_yates (choices gen (length as)) cs))
           \<and> fisher_yates (choices gen (length as)) cs
               = map ((!) cs) (fisher_yates (choices gen (length as)) [0..<length as])
           \<and> bij_betw (\<lambda>js. fisher_yates js [0..<length as])
                {js. valid_choices (length as) js} {ps. mset ps = mset [0..<length as]}"
proof -
  let ?n = "length as" let ?h = "deck_heap d"
  let ?J = "\<lambda>k. nat (gen k (int k, int ?n - 1))"
  let ?cs = "map (card_at ?h) as"
  from wf_deck_begin[OF assms(1)] obtain p where p: "begin_it d = Inr p" "lseg ?h p as None"
    by blast
  have p0: "p = pos_ptr as 0" using p(2) by (cases as) (auto simp: pos_ptr_def)
  have "\<exists>d'. shuffle_loop gen 0 (pos_ptr as 0) d = Some (Inr d') \<and> wf_deck d' as
           \<and> same_links ?h (deck_heap d')
           \<and> map (card_at (deck_heap d')) as = fy_steps ?J 0 ?n ?cs"
    using assms(2) by (intro shuffle_loop_chain[OF assms(1)]) simp_all
  then obtain d' where d': "shuffle_loop gen 0 (pos_ptr as 0) d = Some (Inr d')" "wf_deck d' as"
    "same_links ?h (deck_heap d')" "map (card_at (deck_heap d')) as = fy_steps ?J 0 ?n ?cs"
    by blast
  have sh: "shuffle gen d = Some (Inr d')" using p(1) p0 d'(1) by (simp add: shuffle_def)
  have vc: "valid_choices ?n (choices gen ?n)"
    using assms(2) by (auto simp: valid_choices_def choices_def)
  have "fy_steps ((!) (choices gen ?n)) 0 ?n ?cs = fy_steps ?J 0 ?n ?cs"
    by (rule fy_steps_cong) (simp add: choices_def)
  then have fy: "fisher_yates (choices gen ?n) ?cs = map (card_at (deck_heap d')) as"
    using d'(4) by (simp add: fisher_yates_def)
  have pos: "fisher_yates (choices gen ?n) ?cs
               = map ((!) ?cs) (fisher_yates (choices gen ?n) [0..<?n])"
    using fisher_yates_positions[of ?cs "choices gen ?n"] vc by simp
  have bij: "bij_betw (\<lambda>js. fisher_yates js [0..<?n]) {js. valid_choices ?n js} {ps. mset ps = mset [0..<?n]}"
    using fisher_yates_bij[of "[0..<?n]"] by simp
  show ?thesis
    using sh d'(2,3) vc traverse_wf_deck[OF assms(1)] traverse_wf_deck[OF d'(2)] fy pos bij
    by (intro exI[of _ d'] exI[of _ ?cs]) simp
qed

theorem shuffle_fisher_yates_witness:
  "wf_deck deck0 [1, 2, 3]
   \<and> (\<exists>d' cs. shuffle draw_last deck0 = Some (Inr d') \<and> wf_deck d' [1, 2, 3]
           \<and> same_links (deck_heap deck0) (deck_heap d')
           \<and> valid_choices 3 (choices draw_last 3)
           \<and> traverse deck0 = Some (Inr cs)
           \<and> traverse d' = Some (Inr (fisher_yates (choices draw_last 3) cs))
           \<and> fisher_yates (choices draw_last 3) cs
               = map ((!) cs) (fisher_yates (choices draw_last 3) [0..<3])
           \<and> bij_betw (\<lambda>js. fisher_yates js [0..<3])
                {js. valid_choices 3 js} {ps. mset ps = mset [0..<3]})"
proof -
  have r: "\<forall>k<length [1::nat, 2, 3]. int k \<le> draw_last k (int k, int (length [1::nat, 2, 3]) - 1)
             \<and> draw_last k (int k, int (length [1::nat, 2, 3]) - 1) \<le> int (length [1::nat, 2, 3]) - 1"
    by (auto simp: draw_last_def)
  have len: "length [1::nat, 2, 3] = 3" by simp
  note t = shuffle_fisher_yates[of deck0 "[1, 2, 3]" draw_last, OF wf_deck0 r, unfolded len]
  from t wf_deck0 show ?thesis by blast
qed

section \<open>pushFront and generateStandardDeck\<close>

lemma pushFront_wf:
  assumes wf: "wf_deck d as" and fresh: "a \<notin> dom (deck_heap d)"
  shows "\<exists>d'. pushFront c a d = Inr d' \<and> wf_deck d' (a # as)
           \<and> map (card_at (deck_heap d')) (a # as) = c # map (card_at (deck_heap d)) as
           \<and> dom (deck_heap d') = insert a (dom (deck_heap d))
           \<and> beforeHeadNode d' = beforeHeadNode d"
proof -
  let ?s = "beforeHeadNode d" let ?h = "deck_heap d"
  let ?nn = "\<lparr>card_v = c, next = None\<rparr>"
  let ?d0 = "d\<lparr>deck_heap := ?h(a \<mapsto> ?nn)\<rparr>"
  from wf have ch: "lseg ?h (Some ?s) (?s # as) None" and di: "distinct (?s # as)"
    and sz: "deckSize d = length as"
    by (simp_all add: wf_deck_def deck_chain_def)
  have an: "a \<notin> set (?s # as)" using lseg_dom[OF ch] fresh by auto
  have ch0: "lseg (deck_heap ?d0) (Some ?s) ([] @ ?s # as) None"
    using ch an lseg_frame[of a "?s # as" ?h "Some ?nn" "Some ?s" None] by simp
  have di0: "distinct ([] @ ?s # as)" using di by simp
  have an0: "a \<notin> set ([] @ ?s # as)" using an by simp
  have ha: "deck_heap ?d0 a = Some ?nn" by simp
  from attachAfter_chain[OF ch0 di0 an0 ha] obtain d1 where
    d1: "attachAfter (Some ?s) (Some a) ?d0 = Inr d1"
    "lseg (deck_heap d1) (Some ?s) ([] @ ?s # a # as) None"
    "same_cards (deck_heap ?d0) (deck_heap d1)"
    "beforeHeadNode d1 = beforeHeadNode ?d0" "deckSize d1 = deckSize ?d0"
    by blast
  let ?d' = "d1\<lparr>deckSize := deckSize d1 + 1\<rparr>"
  have pf: "pushFront c a d = Inr ?d'"
    using d1(1) by (simp add: pushFront_def insertAfter_def beforeBegin_def)
  have wf': "wf_deck ?d' (a # as)"
    using d1(2,4,5) di an sz by (simp add: wf_deck_def deck_chain_def)
  have ca: "card_at (deck_heap d1) = card_at (deck_heap ?d0)"
    by (rule card_at_same_cards[OF d1(3)])
  have "map (card_at (deck_heap ?d')) (a # as) = c # map (card_at ?h) as"
    using an by (simp add: ca card_at_def)
  moreover have "dom (deck_heap ?d') = insert a (dom ?h)"
    using same_cards_dom[OF d1(3)] by simp
  ultimately show ?thesis using pf wf' d1(4) by (intro exI[of _ ?d']) simp
qed

lemma push_suites_wf:
  assumes "wf_deck d as" "inj alloc" "\<forall>j\<ge>k. alloc j \<notin> dom (deck_heap d)"
  shows "\<exists>d'. push_suites r ss alloc k d = Inr (k + length ss, d')
           \<and> wf_deck d' (rev (map alloc [k..<k + length ss]) @ as)
           \<and> map (card_at (deck_heap d')) (rev (map alloc [k..<k + length ss]) @ as)
               = rev (map (\<lambda>s. \<lparr>suite = s, rank = r\<rparr>) ss) @ map (card_at (deck_heap d)) as
           \<and> (\<forall>j\<ge>k + length ss. alloc j \<notin> dom (deck_heap d'))
           \<and> beforeHeadNode d' = beforeHeadNode d"
  using assms
proof (induction ss arbitrary: k d as)
  case Nil
  then show ?case by simp
next
  case (Cons s ss)
  have fresh: "alloc k \<notin> dom (deck_heap d)" using Cons.prems(3) by simp
  from pushFront_wf[OF Cons.prems(1) fresh, of "\<lparr>suite = s, rank = r\<rparr>"] obtain d1 where
    d1: "pushFront \<lparr>suite = s, rank = r\<rparr> (alloc k) d = Inr d1" "wf_deck d1 (alloc k # as)"
    "map (card_at (deck_heap d1)) (alloc k # as) = \<lparr>suite = s, rank = r\<rparr> # map (card_at (deck_heap d)) as"
    "dom (deck_heap d1) = insert (alloc k) (dom (deck_heap d))"
    "beforeHeadNode d1 = beforeHeadNode d"
    by iprover
  have fr1: "\<forall>j\<ge>Suc k. alloc j \<notin> dom (deck_heap d1)"
    using Cons.prems(2,3) d1(4) by (auto dest: injD)
  from Cons.IH[OF d1(2) Cons.prems(2) fr1] obtain d' where
    d': "push_suites r ss alloc (Suc k) d1 = Inr (Suc k + length ss, d')"
    "wf_deck d' (rev (map alloc [Suc k..<Suc k + length ss]) @ alloc k # as)"
    "map (card_at (deck_heap d')) (rev (map alloc [Suc k..<Suc k + length ss]) @ alloc k # as)
               = rev (map (\<lambda>s. \<lparr>suite = s, rank = r\<rparr>) ss) @ map (card_at (deck_heap d1)) (alloc k # as)"
    "\<forall>j\<ge>Suc k + length ss. alloc j \<notin> dom (deck_heap d')"
    "beforeHeadNode d' = beforeHeadNode d1"
    by blast
  have e: "k + length (s # ss) = Suc k + length ss" by simp
  have up: "[k..<k + length (s # ss)] = k # [Suc k..<Suc k + length ss]"
    unfolding e by (rule upt_conv_Cons) simp
  have l: "rev (map alloc [k..<k + length (s # ss)]) @ as
           = rev (map alloc [Suc k..<Suc k + length ss]) @ alloc k # as"
    unfolding up by simp
  show ?case
    unfolding l using d1(1,3,5) d' by (intro exI[of _ d']) simp
qed

text \<open>The ranks the outer loop of \<open>generateStandardDeck\<close> visits from \<open>r\<close> downwards.\<close>

function ranks_from :: "CardRank \<Rightarrow> CardRank list" where
  "ranks_from r = (if TWO \<le> r then r # ranks_from (r - 1) else [])"
  by pat_completeness auto
termination
proof (relation "measure unat")
  show "wf (measure (unat :: CardRank \<Rightarrow> nat))" by simp
next
  fix r :: CardRank
  assume "TWO \<le> r"
  then have "r \<noteq> 0" by (auto simp: TWO_def)
  then have "0 < unat r" by (simp add: unat_gt_0)
  with \<open>r \<noteq> 0\<close> have "unat (r - 1) < unat r"
    by (simp add: unat_minus_one)
  then show "(r - 1, r) \<in> measure unat" by simp
qed

declare ranks_from.simps [simp del]
declare generate_loop.simps [simp del]

definition cards_of_ranks :: "CardRank list \<Rightarrow> Card list" where
  "cards_of_ranks rs =
     concat (map (\<lambda>r. map (\<lambda>s. \<lparr>suite = s, rank = r\<rparr>) [SPADE, HEART, CLUB, DIAMOND]) rs)"

lemma generate_loop_wf:
  "wf_deck d as \<Longrightarrow> inj alloc \<Longrightarrow> \<forall>j\<ge>k. alloc j \<notin> dom (deck_heap d) \<Longrightarrow>
   \<exists>d'. generate_loop r alloc k d = Inr d'
      \<and> wf_deck d' (rev (map alloc [k..<k + 4 * length (ranks_from r)]) @ as)
      \<and> map (card_at (deck_heap d')) (rev (map alloc [k..<k + 4 * length (ranks_from r)]) @ as)
          = rev (cards_of_ranks (ranks_from r)) @ map (card_at (deck_heap d)) as
      \<and> beforeHeadNode d' = beforeHeadNode d"
proof (induction r alloc k d arbitrary: as rule: generate_loop.induct)
  case (1 r alloc k d)
  show ?case
  proof (cases "TWO \<le> r")
    case False
    then show ?thesis
      by (subst generate_loop.simps, subst (1 2 3) ranks_from.simps)
         (simp add: cards_of_ranks_def "1.prems")
  next
    case True
    let ?ss = "[SPADE, HEART, CLUB, DIAMOND]"
    have l4: "length ?ss = 4" by simp
    from push_suites_wf[OF "1.prems", of r ?ss, unfolded l4] obtain d1 where
      d1: "push_suites r ?ss alloc k d = Inr (k + 4, d1)"
      "wf_deck d1 (rev (map alloc [k..<k + 4]) @ as)"
      "map (card_at (deck_heap d1)) (rev (map alloc [k..<k + 4]) @ as)
               = rev (map (\<lambda>s. \<lparr>suite = s, rank = r\<rparr>) ?ss) @ map (card_at (deck_heap d)) as"
      "\<forall>j\<ge>k + 4. alloc j \<notin> dom (deck_heap d1)"
      "beforeHeadNode d1 = beforeHeadNode d"
      by iprover
    from "1.IH"[OF True d1(1) refl d1(2) "1.prems"(2) d1(4)] obtain d' where
      d': "generate_loop (r - 1) alloc (k + 4) d1 = Inr d'"
      "wf_deck d' (rev (map alloc [k + 4..<k + 4 + 4 * length (ranks_from (r - 1))]) @ rev (map alloc [k..<k + 4]) @ as)"
      "map (card_at (deck_heap d'))
          (rev (map alloc [k + 4..<k + 4 + 4 * length (ranks_from (r - 1))]) @ rev (map alloc [k..<k + 4]) @ as)
          = rev (cards_of_ranks (ranks_from (r - 1))) @ map (card_at (deck_heap d1)) (rev (map alloc [k..<k + 4]) @ as)"
      "beforeHeadNode d' = beforeHeadNode d1"
      by blast
    have rf: "ranks_from r = r # ranks_from (r - 1)"
      using True by (subst ranks_from.simps) simp
    have e4: "k + 4 * length (ranks_from r) = k + 4 + 4 * length (ranks_from (r - 1))"
      unfolding rf by simp
    have "[k..<k + 4 * length (ranks_from r)] = [k..<k + 4] @ [k + 4..<k + 4 + 4 * length (ranks_from (r - 1))]"
      unfolding e4 by (rule upt_add_eq_append) simp
    then have l: "rev (map alloc [k..<k + 4 * length (ranks_from r)]) @ as
          = rev (map alloc [k + 4..<k + 4 + 4 * length (ranks_from (r - 1))]) @ rev (map alloc [k..<k + 4]) @ as"
      by simp
    have c: "rev (cards_of_ranks (ranks_from r))
          = rev (cards_of_ranks (ranks_from (r - 1))) @ rev (map (\<lambda>s. \<lparr>suite = s, rank = r\<rparr>) ?ss)"
      unfolding rf by (simp add: cards_of_ranks_def)
    have g: "generate_loop r alloc k d = Inr d'"
      using True d1(1) d'(1) by (subst generate_loop.simps) simp
    have m: "map (card_at (deck_heap d'))
          (rev (map alloc [k + 4..<k + 4 + 4 * length (ranks_from (r - 1))]) @ rev (map alloc [k..<k + 4]) @ as)
          = (rev (cards_of_ranks (ranks_from (r - 1))) @ rev (map (\<lambda>s. \<lparr>suite = s, rank = r\<rparr>) ?ss))
            @ map (card_at (deck_heap d)) as"
      using d'(3) by (simp only: d1(3) append_assoc)
    have b: "beforeHeadNode d' = beforeHeadNode d" using d'(4) d1(5) by simp
    show ?thesis
      unfolding l c using g d'(2) m b by (intro exI[of _ d'] conjI)
  qed
qed

definition standard_order :: "Card list" where
  "standard_order =
     cards_of_ranks [ACE, KING, QUEEN, JACK, TEN, NINE, EIGHT, SEVEN, SIX, FIVE, FOUR, THREE, TWO]"

lemma ranks_from_ACE:
  "ranks_from ACE = [ACE, KING, QUEEN, JACK, TEN, NINE, EIGHT, SEVEN, SIX, FIVE, FOUR, THREE, TWO]"
  by (simp add: ranks_from.simps ACE_def KING_def QUEEN_def JACK_def TEN_def NINE_def EIGHT_def
        SEVEN_def SIX_def FIVE_def FOUR_def THREE_def TWO_def)

lemma set_cards_of_ranks:
  "set (cards_of_ranks rs)
   = (\<lambda>(s, r). \<lparr>suite = s, rank = r\<rparr>) ` ({SPADE, HEART, CLUB, DIAMOND} \<times> set rs)"
  by (auto simp: cards_of_ranks_def)

lemma distinct_standard_order: "distinct standard_order"
  by (simp add: standard_order_def cards_of_ranks_def
        ACE_def KING_def QUEEN_def JACK_def TEN_def NINE_def EIGHT_def
        SEVEN_def SIX_def FIVE_def FOUR_def THREE_def TWO_def
        SPADE_def HEART_def CLUB_def DIAMOND_def)

lemma length_standard_order: "length standard_order = 52"
  by (simp add: standard_order_def cards_of_ranks_def)

text \<open>
  Claim C8. Whatever distinct addresses \<open>new\<close> returns, \<open>generateStandardDeck\<close> returns a
  well-formed deck of 52 nodes. The \<open>k\<close>-th node allocated holds the \<open>k\<close>-th card of
  \<open>standard_order\<close>: for each rank from ace down to two, the suits spade, heart, club,
  diamond in this order. These are 52 distinct cards, exactly the suits
  \<open>{SPADE, HEART, CLUB, DIAMOND}\<close> crossed with the ranks \<open>TWO, \<dots>, ACE\<close>. Since each card is
  pushed at the front, the deck read from front to back is this order reversed.
\<close>

theorem generateStandardDeck_standard:
  assumes "inj alloc" "self \<notin> range alloc"
  shows "\<exists>d. generateStandardDeck self alloc = Inr d
           \<and> wf_deck d (rev (map alloc [0..<52])) \<and> deck_size d = 52
           \<and> map (\<lambda>k. card_at (deck_heap d) (alloc k)) [0..<52] = standard_order
           \<and> traverse d = Some (Inr (rev standard_order))
           \<and> distinct standard_order \<and> length standard_order = 52
           \<and> set standard_order
               = (\<lambda>(s, r). \<lparr>suite = s, rank = r\<rparr>) `
                   ({SPADE, HEART, CLUB, DIAMOND}
                    \<times> {TWO, THREE, FOUR, FIVE, SIX, SEVEN, EIGHT, NINE, TEN, JACK, QUEEN, KING, ACE})"
proof -
  have fresh: "\<forall>j\<ge>0. alloc j \<notin> dom (deck_heap (Deck_new self))"
    using assms(2) by (auto simp: Deck_new_def)
  have len: "0 + 4 * length (ranks_from ACE) = 52" by (simp add: ranks_from_ACE)
  from generate_loop_wf[OF wf_Deck_new assms(1) fresh, of ACE, unfolded len] obtain d where
    d: "generate_loop ACE alloc 0 (Deck_new self) = Inr d"
    "wf_deck d (rev (map alloc [0..<52]) @ [])"
    "map (card_at (deck_heap d)) (rev (map alloc [0..<52]) @ [])
       = rev (cards_of_ranks (ranks_from ACE)) @ map (card_at (deck_heap (Deck_new self))) []"
    by iprover
  have wf: "wf_deck d (rev (map alloc [0..<52]))" using d(2) by (simp only: append_Nil2)
  have cs: "map (card_at (deck_heap d)) (rev (map alloc [0..<52])) = rev standard_order"
    using d(3) by (simp only: append_Nil2 list.map ranks_from_ACE standard_order_def)
  have "rev (map (\<lambda>k. card_at (deck_heap d) (alloc k)) [0..<52]) = rev standard_order"
    using cs by (simp only: rev_map map_map comp_def)
  then have ord: "map (\<lambda>k. card_at (deck_heap d) (alloc k)) [0..<52] = standard_order"
    by (simp only: rev_is_rev_conv)
  have sz: "deck_size d = 52" using wf by (simp add: wf_deck_def deck_size_def)
  have tr: "traverse d = Some (Inr (rev standard_order))"
    using traverse_wf_deck[OF wf] by (simp only: cs)
  have st: "set standard_order = (\<lambda>(s, r). \<lparr>suite = s, rank = r\<rparr>) `
                   ({SPADE, HEART, CLUB, DIAMOND}
                    \<times> {TWO, THREE, FOUR, FIVE, SIX, SEVEN, EIGHT, NINE, TEN, JACK, QUEEN, KING, ACE})"
    unfolding standard_order_def set_cards_of_ranks by auto
  show ?thesis
    using d(1) wf sz ord tr distinct_standard_order length_standard_order st
    unfolding generateStandardDeck_def by (intro exI[of _ d] conjI)
qed

theorem generateStandardDeck_standard_witness:
  "inj Suc \<and> 0 \<notin> range Suc
   \<and> (\<exists>d. generateStandardDeck 0 Suc = Inr d
           \<and> wf_deck d (rev (map Suc [0..<52])) \<and> deck_size d = 52
           \<and> map (\<lambda>k. card_at (deck_heap d) (Suc k)) [0..<52] = standard_order
           \<and> traverse d = Some (Inr (rev standard_order))
           \<and> distinct standard_order \<and> length standard_order = 52
           \<and> set standard_order
               = (\<lambda>(s, r). \<lparr>suite = s, rank = r\<rparr>) `
                   ({SPADE, HEART, CLUB, DIAMOND}
                    \<times> {TWO, THREE, FOUR, FIVE, SIX, SEVEN, EIGHT, NINE, TEN, JACK, QUEEN, KING, ACE}))"
proof -
  have a: "inj Suc" by simp
  have b: "0 \<notin> range Suc" by simp
  from generateStandardDeck_standard[OF a b] a b show ?thesis by (intro conjI)
qed

chapter \<open>OrderedTree: binary-tree.cpp\<close>

section \<open>Nodes\<close>

text \<open>
  The nodes of a tree live in a store from addresses to node contents; \<open>parent\<close>, \<open>left\<close>
  and \<open>right\<close> are pointers into it. The stored values are of a linearly ordered type,
  compared with \<open><\<close> only, as the template does.
\<close>

record 'a tree_node =
  value_v :: 'a
  parent :: "addr option"
  left :: "addr option"
  right :: "addr option"

type_synonym 'a node_heap = "addr \<rightharpoonup> 'a tree_node"

text \<open>The constructor \<open>tree_node(args...)\<close>.\<close>

definition tree_node_new :: "'a \<Rightarrow> 'a tree_node" where
  "tree_node_new v = \<lparr>value_v = v, parent = None, left = None, right = None\<rparr>"

text \<open>\<open>*p\<close>, and the assignments \<open>p->parent = q\<close>, \<open>p->left = q\<close>, \<open>p->right = q\<close>.\<close>

definition load_node :: "'a node_heap \<Rightarrow> addr option \<Rightarrow> error + 'a tree_node" where
  "load_node h p =
     (case p of None \<Rightarrow> Inl InvalidAccess
      | Some a \<Rightarrow> (case h a of None \<Rightarrow> Inl InvalidAccess | Some n \<Rightarrow> Inr n))"

definition store_parent :: "addr option \<Rightarrow> addr option \<Rightarrow> 'a node_heap \<Rightarrow> error + 'a node_heap" where
  "store_parent p q h =
     (case p of None \<Rightarrow> Inl InvalidAccess
      | Some a \<Rightarrow> (case h a of None \<Rightarrow> Inl InvalidAccess
                   | Some n \<Rightarrow> Inr (h(a \<mapsto> n\<lparr>parent := q\<rparr>))))"

definition store_left :: "addr option \<Rightarrow> addr option \<Rightarrow> 'a node_heap \<Rightarrow> error + 'a node_heap" where
  "store_left p q h =
     (case p of None \<Rightarrow> Inl InvalidAccess
      | Some a \<Rightarrow> (case h a of None \<Rightarrow> Inl InvalidAccess
                   | Some n \<Rightarrow> Inr (h(a \<mapsto> n\<lparr>left := q\<rparr>))))"

definition store_right :: "addr option \<Rightarrow> addr option \<Rightarrow> 'a node_heap \<Rightarrow> error + 'a node_heap" where
  "store_right p q h =
     (case p of None \<Rightarrow> Inl InvalidAccess
      | Some a \<Rightarrow> (case h a of None \<Rightarrow> Inl InvalidAccess
                   | Some n \<Rightarrow> Inr (h(a \<mapsto> n\<lparr>right := q\<rparr>))))"

definition delete_tree_node :: "addr option \<Rightarrow> 'a node_heap \<Rightarrow> error + 'a node_heap" where
  "delete_tree_node p h =
     (case p of None \<Rightarrow> Inr h
      | Some a \<Rightarrow> (if a \<in> dom h then Inr (h(a := None)) else Inl InvalidAccess))"

text \<open>The member functions of \<open>tree_node\<close>; \<open>this\<close> is the first argument.\<close>

definition attach_on_left :: "addr option \<Rightarrow> addr option \<Rightarrow> 'a node_heap \<Rightarrow> error + 'a node_heap" where
  "attach_on_left this new_left h =
     (case store_left this new_left h of Inl e \<Rightarrow> Inl e
      | Inr h1 \<Rightarrow> if new_left \<noteq> None then store_parent new_left this h1 else Inr h1)"

definition attach_on_right :: "addr option \<Rightarrow> addr option \<Rightarrow> 'a node_heap \<Rightarrow> error + 'a node_heap" where
  "attach_on_right this new_right h =
     (case store_right this new_right h of Inl e \<Rightarrow> Inl e
      | Inr h1 \<Rightarrow> if new_right \<noteq> None then store_parent new_right this h1 else Inr h1)"

definition replace_child ::
  "addr option \<Rightarrow> addr option \<Rightarrow> addr option \<Rightarrow> 'a node_heap \<Rightarrow> error + 'a node_heap" where
  "replace_child this old_child new_child h =
     (case load_node h this of Inl e \<Rightarrow> Inl e
      | Inr n \<Rightarrow>
          if left n = old_child then
            (case attach_on_left this new_child h of Inl e \<Rightarrow> Inl e
             | Inr h1 \<Rightarrow> store_parent old_child None h1)
          else if right n = old_child then
            (case attach_on_right this new_child h of Inl e \<Rightarrow> Inl e
             | Inr h1 \<Rightarrow> store_parent old_child None h1)
          else Inr h)"

section \<open>The tree\<close>

record 'a tree =
  tree_heap :: "'a node_heap"
  root :: "addr option"
  tree_size :: nat

text \<open>\<open>tree()\<close>.\<close>

definition tree_init :: "'a tree" where
  "tree_init = \<lparr>tree_heap = Map.empty, root = None, tree_size = 0\<rparr>"

definition size_tree :: "'a tree \<Rightarrow> nat" where
  "size_tree t = tree_size t"

definition empty_tree :: "'a tree \<Rightarrow> bool" where
  "empty_tree t = (size_tree t = 0)"

partial_function (option) try_insert ::
  "addr option \<Rightarrow> addr option \<Rightarrow> ('a::linorder) node_heap \<Rightarrow> (error + bool \<times> 'a node_heap) option" where
  "try_insert subtree new_node h =
     (case load_node h new_node of Inl e \<Rightarrow> Some (Inl e) | Inr nn \<Rightarrow>
      (case load_node h subtree of Inl e \<Rightarrow> Some (Inl e) | Inr sn \<Rightarrow>
        if value_v nn < value_v sn then
          (if left sn = None then
             (case attach_on_left subtree new_node h of Inl e \<Rightarrow> Some (Inl e)
              | Inr h1 \<Rightarrow> Some (Inr (True, h1)))
           else try_insert (left sn) new_node h)
        else if value_v sn < value_v nn then
          (if right sn = None then
             (case attach_on_right subtree new_node h of Inl e \<Rightarrow> Some (Inl e)
              | Inr h1 \<Rightarrow> Some (Inr (True, h1)))
           else try_insert (right sn) new_node h)
        else Some (Inr (False, h))))"

text \<open>\<open>emplace\<close>; \<open>new_node\<close> is the address \<open>new node(args...)\<close> returns.\<close>

definition emplace :: "addr \<Rightarrow> 'a \<Rightarrow> ('a::linorder) tree \<Rightarrow> (error + bool \<times> 'a tree) option" where
  "emplace new_node v t =
     (let h0 = (tree_heap t)(new_node \<mapsto> tree_node_new v) in
      if empty_tree t then
        Some (Inr (True, t\<lparr>tree_heap := h0, root := Some new_node, tree_size := tree_size t + 1\<rparr>))
      else
        (case try_insert (root t) (Some new_node) h0 of None \<Rightarrow> None
         | Some (Inl e) \<Rightarrow> Some (Inl e)
         | Some (Inr (success, h1)) \<Rightarrow>
             if \<not> success then
               (case delete_tree_node (Some new_node) h1 of Inl e \<Rightarrow> Some (Inl e)
                | Inr h2 \<Rightarrow> Some (Inr (False, t\<lparr>tree_heap := h2\<rparr>)))
             else Some (Inr (True, t\<lparr>tree_heap := h1, tree_size := tree_size t + 1\<rparr>))))"

definition insert_tree :: "addr \<Rightarrow> 'a \<Rightarrow> ('a::linorder) tree \<Rightarrow> (error + bool \<times> 'a tree) option" where
  "insert_tree new_node v t = emplace new_node v t"

partial_function (option) find_at ::
  "('a::linorder) node_heap \<Rightarrow> addr option \<Rightarrow> 'a \<Rightarrow> (error + addr option) option" where
  "find_at h subtree v =
     (if subtree = None then Some (Inr None)
      else (case load_node h subtree of Inl e \<Rightarrow> Some (Inl e) | Inr n \<Rightarrow>
        if v < value_v n then find_at h (left n) v
        else if value_v n < v then find_at h (right n) v
        else Some (Inr subtree)))"

definition contains :: "'a \<Rightarrow> ('a::linorder) tree \<Rightarrow> (error + bool) option" where
  "contains v t =
     (case find_at (tree_heap t) (root t) v of None \<Rightarrow> None
      | Some (Inl e) \<Rightarrow> Some (Inl e)
      | Some (Inr p) \<Rightarrow> Some (Inr (p \<noteq> None)))"

section \<open>Extraction\<close>

definition extract_leaf :: "addr option \<Rightarrow> 'a tree \<Rightarrow> error + 'a tree" where
  "extract_leaf leaf_to_erase t =
     (case load_node (tree_heap t) leaf_to_erase of Inl e \<Rightarrow> Inl e
      | Inr n \<Rightarrow>
          if parent n \<noteq> None then
            (case replace_child (parent n) leaf_to_erase None (tree_heap t) of Inl e \<Rightarrow> Inl e
             | Inr h1 \<Rightarrow> Inr (t\<lparr>tree_heap := h1\<rparr>))
          else Inr (t\<lparr>root := None\<rparr>))"

definition extract_single_node :: "addr option \<Rightarrow> 'a tree \<Rightarrow> error + 'a tree" where
  "extract_single_node node_to_erase t =
     (case load_node (tree_heap t) node_to_erase of Inl e \<Rightarrow> Inl e
      | Inr n \<Rightarrow>
          (let child = (if left n \<noteq> None then left n else right n) in
           if parent n \<noteq> None then
             (case replace_child (parent n) node_to_erase child (tree_heap t) of Inl e \<Rightarrow> Inl e
              | Inr h1 \<Rightarrow> Inr (t\<lparr>tree_heap := h1\<rparr>))
           else
             (case store_parent child None (tree_heap t) of Inl e \<Rightarrow> Inl e
              | Inr h1 \<Rightarrow> Inr (t\<lparr>tree_heap := h1, root := child\<rparr>))))"

text \<open>The loop of \<open>extract_min_node\<close>: \<open>while(subtree->left != nullptr) subtree = subtree->left\<close>.\<close>

partial_function (option) min_node_loop ::
  "'a node_heap \<Rightarrow> addr option \<Rightarrow> (error + addr option) option" where
  "min_node_loop h subtree =
     (case load_node h subtree of Inl e \<Rightarrow> Some (Inl e)
      | Inr n \<Rightarrow> if left n \<noteq> None then min_node_loop h (left n) else Some (Inr subtree))"

definition extract_min_node :: "addr option \<Rightarrow> 'a tree \<Rightarrow> (error + addr option \<times> 'a tree) option" where
  "extract_min_node subtree0 t =
     (case min_node_loop (tree_heap t) subtree0 of None \<Rightarrow> None
      | Some (Inl e) \<Rightarrow> Some (Inl e)
      | Some (Inr subtree) \<Rightarrow>
          (case load_node (tree_heap t) subtree of Inl e \<Rightarrow> Some (Inl e)
           | Inr n \<Rightarrow>
               if right n \<noteq> None then
                 (case extract_single_node subtree t of Inl e \<Rightarrow> Some (Inl e)
                  | Inr t1 \<Rightarrow> Some (Inr (subtree, t1)))
               else
                 (case extract_leaf subtree t of Inl e \<Rightarrow> Some (Inl e)
                  | Inr t1 \<Rightarrow> Some (Inr (subtree, t1)))))"

text \<open>
  \<open>extract_double_node\<close> reads \<open>node_to_erase->parent\<close>, \<open>->left\<close> and \<open>->right\<close> after
  \<open>extract_min_node\<close> has run, each at the point where the source reads it.
\<close>

definition extract_double_node :: "addr option \<Rightarrow> 'a tree \<Rightarrow> (error + 'a tree) option" where
  "extract_double_node node_to_erase t =
     (case load_node (tree_heap t) node_to_erase of Inl e \<Rightarrow> Some (Inl e)
      | Inr n \<Rightarrow>
        (case extract_min_node (right n) t of None \<Rightarrow> None
         | Some (Inl e) \<Rightarrow> Some (Inl e)
         | Some (Inr (min_node, t1)) \<Rightarrow>
            Some
             (case load_node (tree_heap t1) node_to_erase of Inl e \<Rightarrow> Inl e
              | Inr n1 \<Rightarrow>
                 (case (if parent n1 \<noteq> None then
                          (case replace_child (parent n1) node_to_erase min_node (tree_heap t1) of
                             Inl e \<Rightarrow> Inl e
                           | Inr h2 \<Rightarrow> Inr (t1\<lparr>tree_heap := h2\<rparr>))
                        else
                          (case store_parent min_node None (tree_heap t1) of Inl e \<Rightarrow> Inl e
                           | Inr h2 \<Rightarrow> Inr (t1\<lparr>tree_heap := h2, root := min_node\<rparr>))) of
                    Inl e \<Rightarrow> Inl e
                  | Inr t2 \<Rightarrow>
                     (case load_node (tree_heap t2) node_to_erase of Inl e \<Rightarrow> Inl e
                      | Inr n2 \<Rightarrow>
                         (case attach_on_left min_node (left n2) (tree_heap t2) of Inl e \<Rightarrow> Inl e
                          | Inr h3 \<Rightarrow>
                             (case load_node h3 node_to_erase of Inl e \<Rightarrow> Inl e
                              | Inr n3 \<Rightarrow>
                                 (case attach_on_right min_node (right n3) h3 of Inl e \<Rightarrow> Inl e
                                  | Inr h4 \<Rightarrow> Inr (t2\<lparr>tree_heap := h4\<rparr>)))))))))"

definition extract_node :: "addr option \<Rightarrow> 'a tree \<Rightarrow> (error + 'a tree) option" where
  "extract_node node t =
     (case load_node (tree_heap t) node of Inl e \<Rightarrow> Some (Inl e)
      | Inr n \<Rightarrow>
          if left n = None \<and> right n = None then Some (extract_leaf node t)
          else if left n \<noteq> None \<and> right n \<noteq> None then extract_double_node node t
          else Some (extract_single_node node t))"

definition erase :: "'a \<Rightarrow> ('a::linorder) tree \<Rightarrow> (error + 'a tree) option" where
  "erase v t =
     (case find_at (tree_heap t) (root t) v of None \<Rightarrow> None
      | Some (Inl e) \<Rightarrow> Some (Inl e)
      | Some (Inr node_to_erase) \<Rightarrow>
          if node_to_erase \<noteq> None then
            (case extract_node node_to_erase t of None \<Rightarrow> None
             | Some (Inl e) \<Rightarrow> Some (Inl e)
             | Some (Inr t1) \<Rightarrow>
                 (case delete_tree_node node_to_erase (tree_heap t1) of Inl e \<Rightarrow> Some (Inl e)
                  | Inr h2 \<Rightarrow> Some (Inr (t1\<lparr>tree_heap := h2, tree_size := tree_size t1 - 1\<rparr>))))
          else Some (Inr t))"

declare try_insert.simps [code]
declare find_at.simps [code]
declare min_node_loop.simps [code]

section \<open>The tree a store represents\<close>

text \<open>
  \<open>Br l a v r\<close> is the node at address \<open>a\<close> holding \<open>v\<close>, with subtrees \<open>l\<close> and \<open>r\<close>.
  \<open>tree_at h p par T\<close>: in the store \<open>h\<close> the pointer \<open>p\<close> is the root of \<open>T\<close> and its
  parent pointer is \<open>par\<close>; every node below has its fields as \<open>T\<close> says.
\<close>

datatype 'a atree = Tip | Br "'a atree" addr 'a "'a atree"

fun root_ptr :: "'a atree \<Rightarrow> addr option" where
  "root_ptr Tip = None"
| "root_ptr (Br l a v r) = Some a"

fun addrs :: "'a atree \<Rightarrow> addr list" where
  "addrs Tip = []"
| "addrs (Br l a v r) = addrs l @ a # addrs r"

fun vals :: "'a atree \<Rightarrow> 'a list" where
  "vals Tip = []"
| "vals (Br l a v r) = vals l @ v # vals r"

fun tree_at :: "'a node_heap \<Rightarrow> addr option \<Rightarrow> addr option \<Rightarrow> 'a atree \<Rightarrow> bool" where
  "tree_at h p par Tip = (p = None)"
| "tree_at h p par (Br l a v r) =
     (p = Some a \<and>
      (\<exists>n. h a = Some n \<and> value_v n = v \<and> parent n = par
           \<and> tree_at h (left n) (Some a) l \<and> tree_at h (right n) (Some a) r))"

text \<open>The ordering invariant, as the specification words it.\<close>

fun bst :: "('a::linorder) atree \<Rightarrow> bool" where
  "bst Tip = True"
| "bst (Br l a v r) =
     (bst l \<and> bst r \<and> (\<forall>x\<in>set (vals l). x < v) \<and> (\<forall>x\<in>set (vals r). v < x))"

definition wf_tree :: "('a::linorder) tree \<Rightarrow> 'a atree \<Rightarrow> bool" where
  "wf_tree t T =
     (tree_at (tree_heap t) (root t) None T \<and> distinct (addrs T) \<and> bst T
      \<and> tree_size t = length (vals T))"

text \<open>What the operations do to the represented tree.\<close>

fun lookup :: "('a::linorder) atree \<Rightarrow> 'a \<Rightarrow> addr option" where
  "lookup Tip v = None"
| "lookup (Br l a w r) v =
     (if v < w then lookup l v else if w < v then lookup r v else Some a)"

fun ins :: "addr \<Rightarrow> 'a \<Rightarrow> ('a::linorder) atree \<Rightarrow> 'a atree" where
  "ins a v Tip = Br Tip a v Tip"
| "ins a v (Br l b w r) =
     (if v < w then Br (ins a v l) b w r
      else if w < v then Br l b w (ins a v r)
      else Br l b w r)"

fun split_min :: "'a atree \<Rightarrow> 'a atree \<Rightarrow> addr \<Rightarrow> 'a \<Rightarrow> addr \<times> 'a \<times> 'a atree" where
  "split_min Tip r a v = (a, v, r)"
| "split_min (Br ll b w lr) r a v =
     (case split_min ll lr b w of (m, mv, l') \<Rightarrow> (m, mv, Br l' a v r))"

fun del_root :: "'a atree \<Rightarrow> 'a atree" where
  "del_root Tip = Tip"
| "del_root (Br Tip a v Tip) = Tip"
| "del_root (Br (Br ll b w lr) a v Tip) = Br ll b w lr"
| "del_root (Br Tip a v (Br rl c x rr)) = Br rl c x rr"
| "del_root (Br (Br ll b w lr) a v (Br rl c x rr)) =
     (case split_min rl rr c x of (m, mv, r') \<Rightarrow> Br (Br ll b w lr) m mv r')"

fun del :: "'a \<Rightarrow> ('a::linorder) atree \<Rightarrow> 'a atree" where
  "del v Tip = Tip"
| "del v (Br l a w r) =
     (if v < w then Br (del v l) a w r
      else if w < v then Br l a w (del v r)
      else del_root (Br l a w r))"

lemma split_min_props:
  "split_min l r a v = (m, mv, T') \<Longrightarrow>
     mset (addrs (Br l a v r)) = add_mset m (mset (addrs T'))
   \<and> mset (vals (Br l a v r)) = add_mset mv (mset (vals T'))
   \<and> vals (Br l a v r) = mv # vals T'
   \<and> addrs (Br l a v r) = m # addrs T'"
proof (induction l arbitrary: r a v m mv T')
  case Tip
  then show ?case by auto
next
  case (Br ll b w lr)
  obtain m1 mv1 l' where s: "split_min ll lr b w = (m1, mv1, l')" by (cases "split_min ll lr b w")
  from Br.IH(1)[OF s] Br.prems s show ?case by auto
qed

lemma bst_sorted: "bst T \<Longrightarrow> sorted_wrt (<) (vals T)"
  by (induction T) (force simp: sorted_wrt_append intro: less_trans)+

lemma sorted_bst_split:
  "sorted_wrt (<) (vals l @ v # vals r) \<Longrightarrow> (\<forall>x\<in>set (vals l). x < v) \<and> (\<forall>x\<in>set (vals r). v < x)"
  by (auto simp: sorted_wrt_append)

lemma sorted_bst: "sorted_wrt (<) (vals T) \<Longrightarrow> bst T"
  by (induction T) (auto simp: sorted_wrt_append)

lemma bst_iff_sorted: "bst T = sorted_wrt (<) (vals (T :: ('a::linorder) atree))"
  using bst_sorted sorted_bst by blast

lemma split_min_bst:
  assumes "split_min l r a v = (m, mv, T')" "bst (Br l a v r)"
  shows "bst T' \<and> (\<forall>x\<in>set (vals T'). mv < x)"
proof -
  from split_min_props[OF assms(1)] have "vals (Br l a v r) = mv # vals T'" by simp
  moreover have "sorted_wrt (<) (vals (Br l a v r))" using assms(2) by (rule bst_sorted)
  ultimately have "sorted_wrt (<) (mv # vals T')" by simp
  then show ?thesis by (auto simp: bst_iff_sorted)
qed

lemma del_root_addrs:
  "mset (addrs (Br l a v r)) = add_mset a (mset (addrs (del_root (Br l a v r))))"
proof (cases l; cases r)
  fix ll b w lr rl c x rr
  assume l: "l = Br ll b w lr" and r: "r = Br rl c x rr"
  obtain m mv r' where s: "split_min rl rr c x = (m, mv, r')" by (cases "split_min rl rr c x")
  from split_min_props[OF s] show ?thesis using l r s by simp
qed simp_all

lemma del_root_vals:
  "mset (vals (Br l a v r)) = add_mset v (mset (vals (del_root (Br l a v r))))"
proof (cases l; cases r)
  fix ll b w lr rl c x rr
  assume l: "l = Br ll b w lr" and r: "r = Br rl c x rr"
  obtain m mv r' where s: "split_min rl rr c x = (m, mv, r')" by (cases "split_min rl rr c x")
  from split_min_props[OF s] show ?thesis using l r s by simp
qed simp_all

lemma del_root_bst:
  assumes "bst (Br l a v r)"
  shows "bst (del_root (Br l a v r))"
proof (cases l; cases r)
  fix ll b w lr rl c x rr
  assume l: "l = Br ll b w lr" and r: "r = Br rl c x rr"
  obtain m mv r' where s: "split_min rl rr c x = (m, mv, r')" by (cases "split_min rl rr c x")
  have br: "bst (Br rl c x rr)" using assms r by simp
  from split_min_bst[OF s br] have r': "bst r'" "\<forall>y\<in>set (vals r'). mv < y" by simp_all
  from split_min_props[OF s] have "mv \<in> set (vals r)" using r
    by (metis list.set_intros(1))
  then have "v < mv" using assms by auto
  then have "\<forall>y\<in>set (vals l). y < mv" using assms by (auto intro: less_trans)
  then show ?thesis using assms l r s r' by simp
qed (use assms in simp_all)

lemma del_vals: "bst T \<Longrightarrow> set (vals (del v T)) = set (vals T) - {v}"
proof (induction T)
  case Tip
  then show ?case by simp
next
  case (Br l a w r)
  show ?case
  proof (cases "v < w")
    case True
    then show ?thesis using Br by auto
  next
    case False
    show ?thesis
    proof (cases "w < v")
      case True
      then show ?thesis using Br \<open>\<not> v < w\<close> by auto
    next
      case False
      with \<open>\<not> v < w\<close> have vw: "v = w" by simp
      have d: "distinct (vals (Br l a w r))"
        using bst_sorted[OF Br.prems] by (simp add: strict_sorted_iff)
      have "mset (vals (Br l a w r)) = add_mset w (mset (vals (del_root (Br l a w r))))"
        by (rule del_root_vals)
      then have "mset (vals (del_root (Br l a w r))) = mset (vals (Br l a w r)) - {#w#}" by simp
      then have "set (vals (del_root (Br l a w r))) = set (vals (Br l a w r)) - {w}"
        using d by (metis distinct_remove1_removeAll mset_remove1 removeAll.simps set_mset_mset set_removeAll)
      then show ?thesis using vw by simp
    qed
  qed
qed

lemma del_bst: "bst T \<Longrightarrow> bst (del v T)"
proof (induction T)
  case Tip
  then show ?case by simp
next
  case (Br l a w r)
  then show ?case
    using del_vals[of l v] del_vals[of r v] del_root_bst[OF Br.prems]
    by auto
qed

section \<open>Stores and represented trees\<close>

lemma tree_at_frame:
  "tree_at h p par T \<Longrightarrow> (\<forall>x\<in>set (addrs T). h' x = h x) \<Longrightarrow> tree_at h' p par T"
proof (induction T arbitrary: p par)
  case Tip
  then show ?case by simp
next
  case (Br l a v r)
  from Br.prems(1) obtain n where n: "p = Some a" "h a = Some n" "value_v n = v" "parent n = par"
    "tree_at h (left n) (Some a) l" "tree_at h (right n) (Some a) r"
    by auto
  have "tree_at h' (left n) (Some a) l" using Br.IH(1)[OF n(5)] Br.prems(2) by simp
  moreover have "tree_at h' (right n) (Some a) r" using Br.IH(2)[OF n(6)] Br.prems(2) by simp
  moreover have "h' a = Some n" using Br.prems(2) n(2) by simp
  ultimately show ?case using n by simp
qed

lemma tree_at_dom: "tree_at h p par T \<Longrightarrow> set (addrs T) \<subseteq> dom h"
proof (induction T arbitrary: p par)
  case Tip
  then show ?case by simp
next
  case (Br l a v r)
  from Br.prems obtain n where n: "h a = Some n"
    "tree_at h (left n) (Some a) l" "tree_at h (right n) (Some a) r"
    by auto
  from Br.IH(1)[OF n(2)] Br.IH(2)[OF n(3)] n(1) show ?case by auto
qed

lemma tree_at_root_ptr: "tree_at h p par T \<Longrightarrow> p = root_ptr T"
  by (cases T) auto

text \<open>Giving the root of a subtree another parent pointer.\<close>

lemma tree_at_reparent:
  assumes "tree_at h (Some c) par T" "distinct (addrs T)" "h c = Some n"
    and "h' c = Some (n\<lparr>parent := par'\<rparr>)"
    and "\<forall>x\<in>set (addrs T). x \<noteq> c \<longrightarrow> h' x = h x"
  shows "tree_at h' (Some c) par' T"
proof (cases T)
  case Tip
  then show ?thesis using assms(1) by simp
next
  case (Br l a v r)
  with assms(1,3) have a: "a = c" and n: "value_v n = v"
    "tree_at h (left n) (Some c) l" "tree_at h (right n) (Some c) r"
    by auto
  from assms(2) Br a have c: "c \<notin> set (addrs l)" "c \<notin> set (addrs r)" by auto
  have "\<forall>x\<in>set (addrs l). h' x = h x" using assms(5) c(1) Br by auto
  then have l: "tree_at h' (left n) (Some c) l" by (rule tree_at_frame[OF n(2)])
  have "\<forall>x\<in>set (addrs r). h' x = h x" using assms(5) c(2) Br by auto
  then have r: "tree_at h' (right n) (Some c) r" by (rule tree_at_frame[OF n(3)])
  show ?thesis using Br a n(1) assms(4) l r by simp
qed

lemma find_at_lookup:
  "tree_at h p par T \<Longrightarrow> find_at h p v = Some (Inr (lookup T v))"
proof (induction T arbitrary: p par)
  case Tip
  then show ?case by (subst find_at.simps) simp
next
  case (Br l a w r)
  from Br.prems obtain n where n: "p = Some a" "h a = Some n" "value_v n = w"
    "tree_at h (left n) (Some a) l" "tree_at h (right n) (Some a) r"
    by auto
  show ?case
    using n Br.IH(1)[OF n(4)] Br.IH(2)[OF n(5)]
    by (subst find_at.simps) (simp add: load_node_def)
qed

lemma lookup_in_addrs: "lookup T v = Some x \<Longrightarrow> x \<in> set (addrs T)"
  by (induction T) (auto split: if_splits)

lemma lookup_iff: "bst T \<Longrightarrow> (lookup T v \<noteq> None) = (v \<in> set (vals T))"
  by (induction T) (auto simp: less_le_not_le)

lemma min_node_loop_split_min:
  "tree_at h p par (Br l a v r) \<Longrightarrow>
   min_node_loop h p = Some (Inr (Some (fst (split_min l r a v))))"
proof (induction l arbitrary: p par a v r)
  case Tip
  then show ?case by (subst min_node_loop.simps) (auto simp: load_node_def)
next
  case (Br ll b w lr)
  from Br.prems obtain n where n: "p = Some a" "h a = Some n"
    "tree_at h (left n) (Some a) (Br ll b w lr)"
    by auto
  then have ln: "left n = Some b" by simp
  show ?case
    using n ln Br.IH(1)[OF n(3)]
    by (subst min_node_loop.simps) (simp add: load_node_def split: prod.splits)
qed

text \<open>\<open>attach_on_left\<close> and \<open>attach_on_right\<close> hang a disjoint subtree below a node.\<close>

lemma attach_on_left_tree:
  assumes "h m = Some nm" "tree_at h q par S" "distinct (addrs S)" "m \<notin> set (addrs S)"
  shows "\<exists>h'. attach_on_left (Some m) q h = Inr h'
           \<and> h' m = Some (nm\<lparr>left := q\<rparr>)
           \<and> tree_at h' q (Some m) S
           \<and> (\<forall>x. x \<noteq> m \<and> Some x \<noteq> q \<longrightarrow> h' x = h x)
           \<and> dom h' = dom h"
proof (cases S)
  case Tip
  with assms(2) have "q = None" by simp
  then show ?thesis using assms(1) Tip
    by (auto simp: attach_on_left_def store_left_def)
next
  case (Br l c v r)
  with assms(2) obtain nc where c: "q = Some c" "h c = Some nc" by auto
  from assms(4) Br have cm: "c \<noteq> m" by auto
  let ?h' = "(h(m \<mapsto> nm\<lparr>left := q\<rparr>))(c \<mapsto> nc\<lparr>parent := Some m\<rparr>)"
  have a: "attach_on_left (Some m) q h = Inr ?h'"
    using assms(1) c cm by (simp add: attach_on_left_def store_left_def store_parent_def)
  have "tree_at ?h' (Some c) (Some m) S"
    by (rule tree_at_reparent[OF assms(2)[unfolded c(1)] assms(3) c(2)]) (use assms(4) in auto)
  then have "tree_at ?h' q (Some m) S" by (simp only: c(1))
  moreover have "?h' m = Some (nm\<lparr>left := q\<rparr>)" using cm by simp
  moreover have "\<forall>x. x \<noteq> m \<and> Some x \<noteq> q \<longrightarrow> ?h' x = h x" using c(1) by simp
  moreover have "dom ?h' = dom h" using assms(1) c(2) by auto
  ultimately show ?thesis using a by (intro exI[of _ ?h'] conjI)
qed

lemma attach_on_right_tree:
  assumes "h m = Some nm" "tree_at h q par S" "distinct (addrs S)" "m \<notin> set (addrs S)"
  shows "\<exists>h'. attach_on_right (Some m) q h = Inr h'
           \<and> h' m = Some (nm\<lparr>right := q\<rparr>)
           \<and> tree_at h' q (Some m) S
           \<and> (\<forall>x. x \<noteq> m \<and> Some x \<noteq> q \<longrightarrow> h' x = h x)
           \<and> dom h' = dom h"
proof (cases S)
  case Tip
  with assms(2) have "q = None" by simp
  then show ?thesis using assms(1) Tip
    by (auto simp: attach_on_right_def store_right_def)
next
  case (Br l c v r)
  with assms(2) obtain nc where c: "q = Some c" "h c = Some nc" by auto
  from assms(4) Br have cm: "c \<noteq> m" by auto
  let ?h' = "(h(m \<mapsto> nm\<lparr>right := q\<rparr>))(c \<mapsto> nc\<lparr>parent := Some m\<rparr>)"
  have a: "attach_on_right (Some m) q h = Inr ?h'"
    using assms(1) c cm by (simp add: attach_on_right_def store_right_def store_parent_def)
  have "tree_at ?h' (Some c) (Some m) S"
    by (rule tree_at_reparent[OF assms(2)[unfolded c(1)] assms(3) c(2)]) (use assms(4) in auto)
  then have "tree_at ?h' q (Some m) S" by (simp only: c(1))
  moreover have "?h' m = Some (nm\<lparr>right := q\<rparr>)" using cm by simp
  moreover have "\<forall>x. x \<noteq> m \<and> Some x \<noteq> q \<longrightarrow> ?h' x = h x" using c(1) by simp
  moreover have "dom ?h' = dom h" using assms(1) c(2) by auto
  ultimately show ?thesis using a by (intro exI[of _ ?h'] conjI)
qed

text \<open>What \<open>replace_child\<close> leaves in the parent node.\<close>

definition set_child :: "'a tree_node \<Rightarrow> addr option \<Rightarrow> addr option \<Rightarrow> 'a tree_node" where
  "set_child n old_child new_child =
     (if left n = old_child then n\<lparr>left := new_child\<rparr>
      else if right n = old_child then n\<lparr>right := new_child\<rparr>
      else n)"

lemma set_child_same:
  "left n = Some q \<or> right n = Some q \<Longrightarrow> set_child n (Some q) (Some q) = n"
  by (auto simp: set_child_def)

lemma set_child_fields [simp]:
  "value_v (set_child n a b) = value_v n" "parent (set_child n a b) = parent n"
  by (simp_all add: set_child_def)

lemma replace_child_tree:
  assumes pp: "h pp = Some np" and ch: "left np = Some p \<or> right np = Some p"
    and p: "h p = Some n0" "p \<noteq> pp"
    and S: "tree_at h q par S" "distinct (addrs S)" "pp \<notin> set (addrs S)" "p \<notin> set (addrs S)"
  shows "\<exists>h'. replace_child (Some pp) (Some p) q h = Inr h'
           \<and> h' pp = Some (set_child np (Some p) q)
           \<and> tree_at h' q (Some pp) S
           \<and> (\<forall>x. x \<noteq> pp \<and> x \<noteq> p \<and> Some x \<noteq> q \<longrightarrow> h' x = h x)
           \<and> h' p = Some (n0\<lparr>parent := None\<rparr>)
           \<and> dom h' = dom h"
proof (cases "left np = Some p")
  case True
  from attach_on_left_tree[OF pp S(1,2,3)] obtain h1 where
    h1: "attach_on_left (Some pp) q h = Inr h1" "h1 pp = Some (np\<lparr>left := q\<rparr>)"
    "tree_at h1 q (Some pp) S" "\<forall>x. x \<noteq> pp \<and> Some x \<noteq> q \<longrightarrow> h1 x = h x" "dom h1 = dom h"
    by blast
  have pq: "Some p \<noteq> q" using S(1,4) by (cases S) auto
  then have h1p: "h1 p = Some n0" using h1(4) p by simp
  let ?h' = "h1(p \<mapsto> n0\<lparr>parent := None\<rparr>)"
  have rc: "replace_child (Some pp) (Some p) q h = Inr ?h'"
    using pp True h1(1) h1p by (simp add: replace_child_def load_node_def store_parent_def)
  have "\<forall>x\<in>set (addrs S). ?h' x = h1 x" using S(4) by auto
  then have "tree_at ?h' q (Some pp) S" by (rule tree_at_frame[OF h1(3)])
  moreover have "dom ?h' = dom h" using h1(5) p(1) by auto
  moreover have "?h' pp = Some (set_child np (Some p) q)"
    using h1(2) p(2) True by (simp add: set_child_def)
  moreover have "\<forall>x. x \<noteq> pp \<and> x \<noteq> p \<and> Some x \<noteq> q \<longrightarrow> ?h' x = h x"
    using h1(4) by simp
  moreover have "?h' p = Some (n0\<lparr>parent := None\<rparr>)" by simp
  ultimately show ?thesis using rc by (intro exI[of _ ?h'] conjI)
next
  case False
  with ch have r: "right np = Some p" by simp
  from attach_on_right_tree[OF pp S(1,2,3)] obtain h1 where
    h1: "attach_on_right (Some pp) q h = Inr h1" "h1 pp = Some (np\<lparr>right := q\<rparr>)"
    "tree_at h1 q (Some pp) S" "\<forall>x. x \<noteq> pp \<and> Some x \<noteq> q \<longrightarrow> h1 x = h x" "dom h1 = dom h"
    by blast
  have pq: "Some p \<noteq> q" using S(1,4) by (cases S) auto
  then have h1p: "h1 p = Some n0" using h1(4) p by simp
  let ?h' = "h1(p \<mapsto> n0\<lparr>parent := None\<rparr>)"
  have rc: "replace_child (Some pp) (Some p) q h = Inr ?h'"
    using pp False r h1(1) h1p by (simp add: replace_child_def load_node_def store_parent_def)
  have "\<forall>x\<in>set (addrs S). ?h' x = h1 x" using S(4) by auto
  then have "tree_at ?h' q (Some pp) S" by (rule tree_at_frame[OF h1(3)])
  moreover have "dom ?h' = dom h" using h1(5) p(1) by auto
  moreover have "?h' pp = Some (set_child np (Some p) q)"
    using h1(2) p(2) False r by (simp add: set_child_def)
  moreover have "\<forall>x. x \<noteq> pp \<and> x \<noteq> p \<and> Some x \<noteq> q \<longrightarrow> ?h' x = h x"
    using h1(4) by simp
  moreover have "?h' p = Some (n0\<lparr>parent := None\<rparr>)" by simp
  ultimately show ?thesis using rc by (intro exI[of _ ?h'] conjI)
qed

section \<open>Detaching the leftmost node of a subtree\<close>

lemma detach_min:
  assumes "tree_at (tree_heap t) (Some q) (Some pp) (Br l q w r)"
    and "distinct (addrs (Br l q w r))" "pp \<notin> set (addrs (Br l q w r))"
    and "tree_heap t pp = Some np" "left np = Some q \<or> right np = Some q"
    and "split_min l r q w = (m, mv, R')"
  shows "\<exists>nm t1. tree_heap t m = Some nm \<and> left nm = None
           \<and> (if right nm \<noteq> None then extract_single_node (Some m) t
               else extract_leaf (Some m) t) = Inr t1
           \<and> root t1 = root t \<and> tree_size t1 = tree_size t
           \<and> tree_at (tree_heap t1) (root_ptr R') (Some pp) R'
           \<and> tree_heap t1 pp = Some (set_child np (Some q) (root_ptr R'))
           \<and> (\<forall>x. x \<notin> set (addrs (Br l q w r)) \<and> x \<noteq> pp \<longrightarrow> tree_heap t1 x = tree_heap t x)
           \<and> (\<exists>nm1. tree_heap t1 m = Some nm1 \<and> value_v nm1 = mv)
           \<and> dom (tree_heap t1) = dom (tree_heap t)"
  using assms
proof (induction l arbitrary: q w r pp np R')
  case Tip
  let ?h = "tree_heap t"
  from Tip.prems(6) have m: "m = q" "mv = w" "R' = r" by simp_all
  from Tip.prems(1) obtain nq where nq: "?h q = Some nq" "value_v nq = w" "parent nq = Some pp"
    "left nq = None" "tree_at ?h (right nq) (Some q) r"
    by auto
  have d: "distinct (addrs r)" "pp \<notin> set (addrs r)" "q \<notin> set (addrs r)" "q \<noteq> pp"
    using Tip.prems(2,3) by auto
  from replace_child_tree[OF Tip.prems(4,5) nq(1) d(4) nq(5) d(1,2,3)] obtain h' where
    h': "replace_child (Some pp) (Some q) (right nq) ?h = Inr h'"
    "h' pp = Some (set_child np (Some q) (right nq))"
    "tree_at h' (right nq) (Some pp) r"
    "\<forall>x. x \<noteq> pp \<and> x \<noteq> q \<and> Some x \<noteq> right nq \<longrightarrow> h' x = ?h x"
    "h' q = Some (nq\<lparr>parent := None\<rparr>)"
    "dom h' = dom ?h"
    by blast
  have rp: "right nq = root_ptr r" using nq(5) by (rule tree_at_root_ptr)
  let ?t1 = "t\<lparr>tree_heap := h'\<rparr>"
  have ex: "(if right nq \<noteq> None then extract_single_node (Some q) t
               else extract_leaf (Some q) t) = Inr ?t1"
    using nq h'(1) by (auto simp: extract_single_node_def extract_leaf_def load_node_def)
  have fr: "\<forall>x. x \<notin> set (addrs (Br Tip q w r)) \<and> x \<noteq> pp \<longrightarrow> tree_heap ?t1 x = ?h x"
  proof (intro allI impI)
    fix x assume x: "x \<notin> set (addrs (Br Tip q w r)) \<and> x \<noteq> pp"
    then have "Some x \<noteq> root_ptr r" by (cases r) auto
    with x h'(4) rp show "tree_heap ?t1 x = ?h x" by simp
  qed
  show ?case
    unfolding m using nq(1,2,4) ex h'(2,3,5,6) rp fr
    by (intro exI[of _ nq] exI[of _ ?t1]) simp
next
  case (Br ll b x lr)
  let ?h = "tree_heap t"
  obtain l' where sm: "split_min ll lr b x = (m, mv, l')" and R': "R' = Br l' q w r"
    using Br.prems(6) by (auto split: prod.splits)
  from Br.prems(1) obtain nq where nq: "?h q = Some nq" "value_v nq = w" "parent nq = Some pp"
    "tree_at ?h (left nq) (Some q) (Br ll b x lr)" "tree_at ?h (right nq) (Some q) r"
    by auto
  then have lb: "left nq = Some b" by simp
  have t1: "tree_at ?h (Some b) (Some q) (Br ll b x lr)" using nq(4) lb by simp
  have d: "distinct (addrs (Br ll b x lr))" "q \<notin> set (addrs (Br ll b x lr))"
    using Br.prems(2) by auto
  have lq: "left nq = Some b \<or> right nq = Some b" using lb by simp
  from Br.IH(1)[OF t1 d nq(1) lq sm] obtain nm t1 where
    r: "?h m = Some nm" "left nm = None"
    "(if right nm \<noteq> None then extract_single_node (Some m) t else extract_leaf (Some m) t) = Inr t1"
    "root t1 = root t" "tree_size t1 = tree_size t"
    "tree_at (tree_heap t1) (root_ptr l') (Some q) l'"
    "tree_heap t1 q = Some (set_child nq (Some b) (root_ptr l'))"
    "\<forall>y. y \<notin> set (addrs (Br ll b x lr)) \<and> y \<noteq> q \<longrightarrow> tree_heap t1 y = ?h y"
    "\<exists>nm1. tree_heap t1 m = Some nm1 \<and> value_v nm1 = mv"
    "dom (tree_heap t1) = dom ?h"
    by blast
  let ?h1 = "tree_heap t1"
  have q1: "?h1 q = Some (nq\<lparr>left := root_ptr l'\<rparr>)" using r(7) lb by (simp add: set_child_def)
  have "\<forall>y\<in>set (addrs r). ?h1 y = ?h y" using r(8) Br.prems(2) by auto
  then have tr: "tree_at ?h1 (right nq) (Some q) r" by (rule tree_at_frame[OF nq(5)])
  have tq: "tree_at ?h1 (root_ptr R') (Some pp) R'"
    unfolding R' using q1 nq(2,3) r(6) tr by simp
  have "?h1 pp = ?h pp" using r(8) Br.prems(3) by auto
  then have pp1: "?h1 pp = Some (set_child np (Some q) (root_ptr R'))"
    unfolding R' using Br.prems(4,5) by (simp add: set_child_same)
  have fr: "\<forall>y. y \<notin> set (addrs (Br (Br ll b x lr) q w r)) \<and> y \<noteq> pp \<longrightarrow> ?h1 y = ?h y"
    using r(8) by auto
  show ?case
    using r(1,2,3,4,5,9,10) tq pp1 fr
    by (intro exI[of _ nm] exI[of _ t1]) simp
qed

lemma extract_min_node_tree:
  assumes "tree_at (tree_heap t) (Some q) (Some pp) (Br l q w r)"
    and "distinct (addrs (Br l q w r))" "pp \<notin> set (addrs (Br l q w r))"
    and "tree_heap t pp = Some np" "left np = Some q \<or> right np = Some q"
    and "split_min l r q w = (m, mv, R')"
  shows "\<exists>t1. extract_min_node (Some q) t = Some (Inr (Some m, t1))
           \<and> root t1 = root t \<and> tree_size t1 = tree_size t
           \<and> tree_at (tree_heap t1) (root_ptr R') (Some pp) R'
           \<and> tree_heap t1 pp = Some (set_child np (Some q) (root_ptr R'))
           \<and> (\<forall>x. x \<notin> set (addrs (Br l q w r)) \<and> x \<noteq> pp \<longrightarrow> tree_heap t1 x = tree_heap t x)
           \<and> (\<exists>nm1. tree_heap t1 m = Some nm1 \<and> value_v nm1 = mv)
           \<and> dom (tree_heap t1) = dom (tree_heap t)"
proof -
  have lp: "min_node_loop (tree_heap t) (Some q) = Some (Inr (Some m))"
    using min_node_loop_split_min[OF assms(1)] assms(6) by simp
  from detach_min[OF assms] obtain nm t1 where
    r: "tree_heap t m = Some nm"
    "(if right nm \<noteq> None then extract_single_node (Some m) t else extract_leaf (Some m) t) = Inr t1"
    "root t1 = root t" "tree_size t1 = tree_size t"
    "tree_at (tree_heap t1) (root_ptr R') (Some pp) R'"
    "tree_heap t1 pp = Some (set_child np (Some q) (root_ptr R'))"
    "\<forall>x. x \<notin> set (addrs (Br l q w r)) \<and> x \<noteq> pp \<longrightarrow> tree_heap t1 x = tree_heap t x"
    "\<exists>nm1. tree_heap t1 m = Some nm1 \<and> value_v nm1 = mv"
    "dom (tree_heap t1) = dom (tree_heap t)"
    by blast
  have "extract_min_node (Some q) t = Some (Inr (Some m, t1))"
    using lp r(1,2) by (auto simp: extract_min_node_def load_node_def split: if_splits)
  with r(3-9) show ?thesis by blast
qed

lemma replace_child_node:
  assumes "h pp = Some np" "left np = Some p \<or> right np = Some p"
    and "h p = Some n0" "p \<noteq> pp" "h c = Some nc" "c \<noteq> pp" "c \<noteq> p"
  shows "replace_child (Some pp) (Some p) (Some c) h
         = Inr (h(pp \<mapsto> set_child np (Some p) (Some c), c \<mapsto> nc\<lparr>parent := Some pp\<rparr>,
                  p \<mapsto> n0\<lparr>parent := None\<rparr>))"
  using assms
  by (auto simp: replace_child_def load_node_def attach_on_left_def attach_on_right_def
        store_left_def store_right_def store_parent_def set_child_def)

text \<open>The last two lines of \<open>extract_double_node\<close>: the successor adopts the subtrees.\<close>

lemma adopt_children:
  assumes m: "h m = Some nm" "value_v nm = mv" "parent nm = par"
    and p: "h p = Some n" "left n = root_ptr l" "right n = root_ptr r'" "m \<noteq> p"
    and l: "tree_at h (root_ptr l) pl l" and r: "tree_at h (root_ptr r') pr r'"
    and d: "distinct (addrs l @ addrs r')" "m \<notin> set (addrs l @ addrs r')"
      "p \<notin> set (addrs l @ addrs r')"
  shows "\<exists>h4. (case load_node h (Some p) of Inl e \<Rightarrow> Inl e
               | Inr n2 \<Rightarrow>
                  (case attach_on_left (Some m) (left n2) h of Inl e \<Rightarrow> Inl e
                   | Inr h3 \<Rightarrow>
                      (case load_node h3 (Some p) of Inl e \<Rightarrow> Inl e
                       | Inr n3 \<Rightarrow>
                          (case attach_on_right (Some m) (right n3) h3 of Inl e \<Rightarrow> Inl e
                           | Inr h4 \<Rightarrow> Inr (t2\<lparr>tree_heap := h4\<rparr>)))))
             = Inr (t2\<lparr>tree_heap := h4\<rparr>)
           \<and> tree_at h4 (Some m) par (Br l m mv r')
           \<and> (\<forall>x. x \<noteq> m \<and> x \<notin> set (addrs l @ addrs r') \<longrightarrow> h4 x = h x)
           \<and> dom h4 = dom h"
proof -
  have dl: "distinct (addrs l)" "m \<notin> set (addrs l)" and dr: "distinct (addrs r')" "m \<notin> set (addrs r')"
    using d by auto
  from attach_on_left_tree[OF m(1) l dl] obtain h3 where
    h3: "attach_on_left (Some m) (root_ptr l) h = Inr h3" "h3 m = Some (nm\<lparr>left := root_ptr l\<rparr>)"
    "tree_at h3 (root_ptr l) (Some m) l"
    "\<forall>x. x \<noteq> m \<and> Some x \<noteq> root_ptr l \<longrightarrow> h3 x = h x" "dom h3 = dom h"
    by blast
  have rl: "\<And>x. x \<notin> set (addrs l) \<Longrightarrow> Some x \<noteq> root_ptr l" by (cases l) auto
  have rr: "\<And>x. x \<notin> set (addrs r') \<Longrightarrow> Some x \<noteq> root_ptr r'" by (cases r') auto
  have "Some p \<noteq> root_ptr l" using d(3) by (intro rl) simp
  then have p3: "h3 p = Some n" using h3(4) p(1,4) by simp
  have "\<forall>x\<in>set (addrs r'). h3 x = h x"
  proof
    fix x assume x: "x \<in> set (addrs r')"
    then have "x \<notin> set (addrs l)" "x \<noteq> m" using d(1) dr(2) by auto
    then show "h3 x = h x" using h3(4) rl by simp
  qed
  then have r3: "tree_at h3 (root_ptr r') pr r'" by (rule tree_at_frame[OF r])
  from attach_on_right_tree[OF h3(2) r3 dr] obtain h4 where
    h4: "attach_on_right (Some m) (root_ptr r') h3 = Inr h4"
    "h4 m = Some (nm\<lparr>left := root_ptr l, right := root_ptr r'\<rparr>)"
    "tree_at h4 (root_ptr r') (Some m) r'"
    "\<forall>x. x \<noteq> m \<and> Some x \<noteq> root_ptr r' \<longrightarrow> h4 x = h3 x" "dom h4 = dom h3"
    by auto
  have "\<forall>x\<in>set (addrs l). h4 x = h3 x"
  proof
    fix x assume x: "x \<in> set (addrs l)"
    then have "x \<notin> set (addrs r')" "x \<noteq> m" using d(1) dl(2) by auto
    then show "h4 x = h3 x" using h4(4) rr by simp
  qed
  then have l4: "tree_at h4 (root_ptr l) (Some m) l" by (rule tree_at_frame[OF h3(3)])
  have t: "tree_at h4 (Some m) par (Br l m mv r')"
    using h4(2,3) l4 m(2,3) by simp
  have fr: "\<forall>x. x \<noteq> m \<and> x \<notin> set (addrs l @ addrs r') \<longrightarrow> h4 x = h x"
  proof (intro allI impI)
    fix x assume x: "x \<noteq> m \<and> x \<notin> set (addrs l @ addrs r')"
    then have "Some x \<noteq> root_ptr l" "Some x \<noteq> root_ptr r'" using rl rr by auto
    then show "h4 x = h x" using x h3(4) h4(4) by simp
  qed
  have run: "(case load_node h (Some p) of Inl e \<Rightarrow> Inl e
               | Inr n2 \<Rightarrow>
                  (case attach_on_left (Some m) (left n2) h of Inl e \<Rightarrow> Inl e
                   | Inr h3 \<Rightarrow>
                      (case load_node h3 (Some p) of Inl e \<Rightarrow> Inl e
                       | Inr n3 \<Rightarrow>
                          (case attach_on_right (Some m) (right n3) h3 of Inl e \<Rightarrow> Inl e
                           | Inr h4 \<Rightarrow> Inr (t2\<lparr>tree_heap := h4\<rparr>)))))
             = Inr (t2\<lparr>tree_heap := h4\<rparr>)"
    using p(1,2,3) h3(1) p3 h4(1) by (simp add: load_node_def)
  show ?thesis using run t fr h4(5) h3(5) by (intro exI[of _ h4]) simp
qed

section \<open>Extracting the root of a subtree\<close>

lemma del_root_single:
  "l = Tip \<or> r = Tip \<Longrightarrow> del_root (Br l a v r) = (if l = Tip then r else l)"
  by (cases l; cases r) auto

lemma root_ptr_notin: "x \<notin> set (addrs T) \<Longrightarrow> Some x \<noteq> root_ptr T"
  by (cases T) auto

lemma root_ptr_None [simp]: "(root_ptr T = None) = (T = Tip)"
  by (cases T) auto

lemma extract_node_at_child:
  assumes T: "tree_at (tree_heap t) (Some p) (Some pp) (Br l p v r)"
    and d: "distinct (addrs (Br l p v r))" "pp \<notin> set (addrs (Br l p v r))"
    and pp: "tree_heap t pp = Some np" "left np = Some p \<or> right np = Some p"
  shows "\<exists>t'. extract_node (Some p) t = Some (Inr t')
           \<and> root t' = root t \<and> tree_size t' = tree_size t
           \<and> tree_at (tree_heap t') (root_ptr (del_root (Br l p v r))) (Some pp) (del_root (Br l p v r))
           \<and> tree_heap t' pp = Some (set_child np (Some p) (root_ptr (del_root (Br l p v r))))
           \<and> (\<forall>x. x \<notin> set (addrs (Br l p v r)) \<and> x \<noteq> pp \<longrightarrow> tree_heap t' x = tree_heap t x)
           \<and> dom (tree_heap t') = dom (tree_heap t)"
proof -
  let ?h = "tree_heap t"
  from T obtain n0 where n0: "?h p = Some n0" "value_v n0 = v" "parent n0 = Some pp"
    "tree_at ?h (left n0) (Some p) l" "tree_at ?h (right n0) (Some p) r"
    by auto
  have lp: "left n0 = root_ptr l" and rp: "right n0 = root_ptr r"
    using n0(4,5) by (auto dest: tree_at_root_ptr)
  have ppp: "p \<noteq> pp" using d(2) by auto
  show ?thesis
  proof (cases "l = Tip \<or> r = Tip")
    case True
    let ?T' = "if l = Tip then r else l"
    have dr: "del_root (Br l p v r) = ?T'" using True by (rule del_root_single)
    have tT: "tree_at ?h (root_ptr ?T') (Some p) ?T'" using n0(4,5) lp rp by auto
    have dT: "distinct (addrs ?T')" "pp \<notin> set (addrs ?T')" "p \<notin> set (addrs ?T')"
      using d by auto
    from replace_child_tree[OF pp n0(1) ppp tT dT] obtain h' where
      h': "replace_child (Some pp) (Some p) (root_ptr ?T') ?h = Inr h'"
      "h' pp = Some (set_child np (Some p) (root_ptr ?T'))"
      "tree_at h' (root_ptr ?T') (Some pp) ?T'"
      "\<forall>x. x \<noteq> pp \<and> x \<noteq> p \<and> Some x \<noteq> root_ptr ?T' \<longrightarrow> h' x = ?h x"
      "dom h' = dom ?h"
      by blast
    let ?t' = "t\<lparr>tree_heap := h'\<rparr>"
    have ex: "extract_node (Some p) t = Some (Inr ?t')"
      using True n0(1,3) lp rp h'(1)
      by (cases l; cases r)
         (auto simp: extract_node_def extract_leaf_def extract_single_node_def load_node_def)
    have fr: "\<forall>x. x \<notin> set (addrs (Br l p v r)) \<and> x \<noteq> pp \<longrightarrow> h' x = ?h x"
    proof (intro allI impI)
      fix x assume x: "x \<notin> set (addrs (Br l p v r)) \<and> x \<noteq> pp"
      then have "x \<notin> set (addrs ?T')" by auto
      then have "Some x \<noteq> root_ptr ?T'" by (rule root_ptr_notin)
      with x h'(4) show "h' x = ?h x" by simp
    qed
    show ?thesis
      unfolding dr using ex h'(2,3,5) fr by (intro exI[of _ ?t']) simp
  next
    case False
    then obtain ll b w lr rl c x rr where l: "l = Br ll b w lr" and r: "r = Br rl c x rr"
      by (cases l; cases r) auto
    obtain m mv r' where sm: "split_min rl rr c x = (m, mv, r')" by (cases "split_min rl rr c x")
    have dr: "del_root (Br l p v r) = Br l m mv r'" using l r sm by simp
    from split_min_props[OF sm] have ar: "addrs r = m # addrs r'" using r by simp
    have tr: "tree_at ?h (Some c) (Some p) (Br rl c x rr)" using n0(5) r by simp
    have drr: "distinct (addrs (Br rl c x rr))" "p \<notin> set (addrs (Br rl c x rr))"
      using d(1) r by auto
    have lc: "left n0 = Some b" "right n0 = Some c" using lp rp l r by simp_all
    have bc: "b \<noteq> c" using d(1) l r by auto
    have slot: "left n0 = Some c \<or> right n0 = Some c" using lc by simp
    from extract_min_node_tree[OF tr drr n0(1) slot sm] obtain t1 where
      t1: "extract_min_node (Some c) t = Some (Inr (Some m, t1))"
      "root t1 = root t" "tree_size t1 = tree_size t"
      "tree_at (tree_heap t1) (root_ptr r') (Some p) r'"
      "tree_heap t1 p = Some (set_child n0 (Some c) (root_ptr r'))"
      "\<forall>y. y \<notin> set (addrs (Br rl c x rr)) \<and> y \<noteq> p \<longrightarrow> tree_heap t1 y = ?h y"
      "dom (tree_heap t1) = dom ?h"
      and "\<exists>nm1. tree_heap t1 m = Some nm1 \<and> value_v nm1 = mv"
      by blast
    then obtain nm1 where nm1: "tree_heap t1 m = Some nm1" "value_v nm1 = mv" by blast
    note fr1 = t1(6)[folded r]
    let ?h1 = "tree_heap t1"
    let ?n1 = "n0\<lparr>right := root_ptr r'\<rparr>"
    have p1: "?h1 p = Some ?n1" using t1(5) lc bc by (simp add: set_child_def)
    have mne: "m \<noteq> p" "m \<noteq> pp" "m \<notin> set (addrs l)" "m \<notin> set (addrs r')"
      using d ar by auto
    have pp1: "?h1 pp = Some np" using fr1 d(2) ppp pp(1) by auto
    let ?h2 = "?h1(pp \<mapsto> set_child np (Some p) (Some m), m \<mapsto> nm1\<lparr>parent := Some pp\<rparr>,
                  p \<mapsto> ?n1\<lparr>parent := None\<rparr>)"
    have rc: "replace_child (Some pp) (Some p) (Some m) ?h1 = Inr ?h2"
      using pp1 pp(2) p1 ppp nm1(1) mne(2,1) by (rule replace_child_node)
    let ?t2 = "t1\<lparr>tree_heap := ?h2\<rparr>"
    have "\<forall>y\<in>set (addrs l). ?h1 y = ?h y" using fr1 d(1) by auto
    then have l1: "tree_at ?h1 (root_ptr l) (Some p) l" using n0(4) lp by (auto intro: tree_at_frame)
    have "\<forall>y\<in>set (addrs l). ?h2 y = ?h1 y" using d mne by auto
    then have l2: "tree_at ?h2 (root_ptr l) (Some p) l" by (rule tree_at_frame[OF l1])
    have "\<forall>y\<in>set (addrs r'). ?h2 y = ?h1 y" using d mne ar by auto
    then have r2: "tree_at ?h2 (root_ptr r') (Some p) r'" by (rule tree_at_frame[OF t1(4)])
    have m2: "?h2 m = Some (nm1\<lparr>parent := Some pp\<rparr>)" using mne by simp
    have p2: "?h2 p = Some (?n1\<lparr>parent := None\<rparr>)" by simp
    have dd: "distinct (addrs l @ addrs r')" "m \<notin> set (addrs l @ addrs r')"
      "p \<notin> set (addrs l @ addrs r')"
      using d ar by auto
    from adopt_children[OF m2 _ _ p2 _ _ mne(1) l2 r2 dd, of mv "Some pp" ?t2] nm1(2) lp
    obtain h4 where
      h4: "(case load_node ?h2 (Some p) of Inl e \<Rightarrow> Inl e
               | Inr n2 \<Rightarrow>
                  (case attach_on_left (Some m) (left n2) ?h2 of Inl e \<Rightarrow> Inl e
                   | Inr h3 \<Rightarrow>
                      (case load_node h3 (Some p) of Inl e \<Rightarrow> Inl e
                       | Inr n3 \<Rightarrow>
                          (case attach_on_right (Some m) (right n3) h3 of Inl e \<Rightarrow> Inl e
                           | Inr h4 \<Rightarrow> Inr (?t2\<lparr>tree_heap := h4\<rparr>)))))
             = Inr (?t2\<lparr>tree_heap := h4\<rparr>)"
      "tree_at h4 (Some m) (Some pp) (Br l m mv r')"
      "\<forall>y. y \<noteq> m \<and> y \<notin> set (addrs l @ addrs r') \<longrightarrow> h4 y = ?h2 y"
      "dom h4 = dom ?h2"
      by auto
    let ?t' = "?t2\<lparr>tree_heap := h4\<rparr>"
    have ed: "extract_double_node (Some p) t = Some (Inr ?t')"
      using n0(1) lc t1(1) p1 n0(3) rc h4(1)
      by (simp add: extract_double_node_def load_node_def)
    have ex: "extract_node (Some p) t = Some (Inr ?t')"
      using n0(1) lc ed by (simp add: extract_node_def load_node_def)
    have pp4: "h4 pp = Some (set_child np (Some p) (Some m))"
      using h4(3) mne(2) d(2) ar ppp by auto
    have fr: "\<forall>y. y \<notin> set (addrs (Br l p v r)) \<and> y \<noteq> pp \<longrightarrow> h4 y = ?h y"
    proof (intro allI impI)
      fix y assume y: "y \<notin> set (addrs (Br l p v r)) \<and> y \<noteq> pp"
      then have "y \<noteq> m" "y \<noteq> p" "y \<notin> set (addrs l @ addrs r')" "y \<notin> set (addrs r)"
        using ar by auto
      then show "h4 y = ?h y" using h4(3) fr1 y by simp
    qed
    have dm: "dom h4 = dom ?h"
      using h4(4) t1(7) pp1 nm1(1) p1 by auto
    show ?thesis
      unfolding dr using ex t1(2,3) h4(2) pp4 fr dm by (intro exI[of _ ?t']) simp
  qed
qed

lemma extract_node_at_root:
  assumes T: "tree_at (tree_heap t) (Some p) None (Br l p v r)"
    and d: "distinct (addrs (Br l p v r))"
  shows "\<exists>t'. extract_node (Some p) t = Some (Inr t')
           \<and> root t' = root_ptr (del_root (Br l p v r)) \<and> tree_size t' = tree_size t
           \<and> tree_at (tree_heap t') (root_ptr (del_root (Br l p v r))) None (del_root (Br l p v r))
           \<and> (\<forall>x. x \<notin> set (addrs (Br l p v r)) \<longrightarrow> tree_heap t' x = tree_heap t x)
           \<and> dom (tree_heap t') = dom (tree_heap t)"
proof -
  let ?h = "tree_heap t"
  from T obtain n0 where n0: "?h p = Some n0" "value_v n0 = v" "parent n0 = None"
    "tree_at ?h (left n0) (Some p) l" "tree_at ?h (right n0) (Some p) r"
    by auto
  have lp: "left n0 = root_ptr l" and rp: "right n0 = root_ptr r"
    using n0(4,5) by (auto dest: tree_at_root_ptr)
  show ?thesis
  proof (cases "l = Tip \<or> r = Tip")
    case True
    let ?T' = "if l = Tip then r else l"
    have dr: "del_root (Br l p v r) = ?T'" using True by (rule del_root_single)
    have tT: "tree_at ?h (root_ptr ?T') (Some p) ?T'" using n0(4,5) lp rp by auto
    have dT: "distinct (addrs ?T')" "p \<notin> set (addrs ?T')" using d by auto
    show ?thesis
    proof (cases ?T')
      case Tip
      then have lr: "l = Tip" "r = Tip" using True by (auto split: if_splits)
      have ex: "extract_node (Some p) t = Some (Inr (t\<lparr>root := None\<rparr>))"
        using n0(1,3) lp rp lr by (simp add: extract_node_def extract_leaf_def load_node_def)
      show ?thesis unfolding dr Tip using ex by (intro exI[of _ "t\<lparr>root := None\<rparr>"]) simp
    next
      case (Br cl c cv cr)
      with tT obtain nc where nc: "?h c = Some nc" by auto
      let ?h' = "?h(c \<mapsto> nc\<lparr>parent := None\<rparr>)"
      let ?t' = "t\<lparr>tree_heap := ?h', root := Some c\<rparr>"
      have child: "(left n0 = Some c \<and> right n0 = None) \<or> (left n0 = None \<and> right n0 = Some c)"
        using lp rp Br True by (cases l; cases r) (auto split: if_splits)
      have ex: "extract_node (Some p) t = Some (Inr ?t')"
        using child
      proof
        assume "left n0 = Some c \<and> right n0 = None"
        then show ?thesis using n0(1,3) nc
          by (simp add: extract_node_def extract_single_node_def load_node_def store_parent_def)
      next
        assume "left n0 = None \<and> right n0 = Some c"
        then show ?thesis using n0(1,3) nc
          by (simp add: extract_node_def extract_single_node_def load_node_def store_parent_def)
      qed
      have tc: "tree_at ?h (Some c) (Some p) ?T'" using tT Br by simp
      have "tree_at ?h' (Some c) None ?T'"
        by (rule tree_at_reparent[OF tc dT(1) nc]) auto
      moreover have "\<forall>x. x \<notin> set (addrs (Br l p v r)) \<longrightarrow> ?h' x = ?h x"
        using Br by (auto split: if_splits)
      moreover have "dom ?h' = dom ?h" using nc by auto
      ultimately show ?thesis
        unfolding dr using ex Br by (intro exI[of _ ?t']) simp
    qed
  next
    case False
    then obtain ll b w lr rl c x rr where l: "l = Br ll b w lr" and r: "r = Br rl c x rr"
      by (cases l; cases r) auto
    obtain m mv r' where sm: "split_min rl rr c x = (m, mv, r')" by (cases "split_min rl rr c x")
    have dr: "del_root (Br l p v r) = Br l m mv r'" using l r sm by simp
    from split_min_props[OF sm] have ar: "addrs r = m # addrs r'" using r by simp
    have tr: "tree_at ?h (Some c) (Some p) (Br rl c x rr)" using n0(5) r by simp
    have drr: "distinct (addrs (Br rl c x rr))" "p \<notin> set (addrs (Br rl c x rr))"
      using d r by auto
    have lc: "left n0 = Some b" "right n0 = Some c" using lp rp l r by simp_all
    have bc: "b \<noteq> c" using d l r by auto
    have slot: "left n0 = Some c \<or> right n0 = Some c" using lc by simp
    from extract_min_node_tree[OF tr drr n0(1) slot sm] obtain t1 where
      t1: "extract_min_node (Some c) t = Some (Inr (Some m, t1))"
      "root t1 = root t" "tree_size t1 = tree_size t"
      "tree_at (tree_heap t1) (root_ptr r') (Some p) r'"
      "tree_heap t1 p = Some (set_child n0 (Some c) (root_ptr r'))"
      "\<forall>y. y \<notin> set (addrs (Br rl c x rr)) \<and> y \<noteq> p \<longrightarrow> tree_heap t1 y = ?h y"
      "dom (tree_heap t1) = dom ?h"
      and "\<exists>nm1. tree_heap t1 m = Some nm1 \<and> value_v nm1 = mv"
      by blast
    then obtain nm1 where nm1: "tree_heap t1 m = Some nm1" "value_v nm1 = mv" by blast
    note fr1 = t1(6)[folded r]
    let ?h1 = "tree_heap t1"
    let ?n1 = "n0\<lparr>right := root_ptr r'\<rparr>"
    have p1: "?h1 p = Some ?n1" using t1(5) lc bc by (simp add: set_child_def)
    have mne: "m \<noteq> p" "m \<notin> set (addrs l)" "m \<notin> set (addrs r')"
      using d ar by auto
    let ?h2 = "?h1(m \<mapsto> nm1\<lparr>parent := None\<rparr>)"
    let ?t2 = "t1\<lparr>tree_heap := ?h2, root := Some m\<rparr>"
    have "\<forall>y\<in>set (addrs l). ?h1 y = ?h y" using fr1 d by auto
    then have l1: "tree_at ?h1 (root_ptr l) (Some p) l" using n0(4) lp by (auto intro: tree_at_frame)
    have "\<forall>y\<in>set (addrs l). ?h2 y = ?h1 y" using mne by auto
    then have l2: "tree_at ?h2 (root_ptr l) (Some p) l" by (rule tree_at_frame[OF l1])
    have "\<forall>y\<in>set (addrs r'). ?h2 y = ?h1 y" using mne by auto
    then have r2: "tree_at ?h2 (root_ptr r') (Some p) r'" by (rule tree_at_frame[OF t1(4)])
    have m2: "?h2 m = Some (nm1\<lparr>parent := None\<rparr>)" by simp
    have p2: "?h2 p = Some ?n1" using p1 mne(1) by simp
    have dd: "distinct (addrs l @ addrs r')" "m \<notin> set (addrs l @ addrs r')"
      "p \<notin> set (addrs l @ addrs r')"
      using d ar by auto
    from adopt_children[OF m2 _ _ p2 _ _ mne(1) l2 r2 dd, of mv None ?t2] nm1(2) lp
    obtain h4 where
      h4: "(case load_node ?h2 (Some p) of Inl e \<Rightarrow> Inl e
               | Inr n2 \<Rightarrow>
                  (case attach_on_left (Some m) (left n2) ?h2 of Inl e \<Rightarrow> Inl e
                   | Inr h3 \<Rightarrow>
                      (case load_node h3 (Some p) of Inl e \<Rightarrow> Inl e
                       | Inr n3 \<Rightarrow>
                          (case attach_on_right (Some m) (right n3) h3 of Inl e \<Rightarrow> Inl e
                           | Inr h4 \<Rightarrow> Inr (?t2\<lparr>tree_heap := h4\<rparr>)))))
             = Inr (?t2\<lparr>tree_heap := h4\<rparr>)"
      "tree_at h4 (Some m) None (Br l m mv r')"
      "\<forall>y. y \<noteq> m \<and> y \<notin> set (addrs l @ addrs r') \<longrightarrow> h4 y = ?h2 y"
      "dom h4 = dom ?h2"
      by auto
    let ?t' = "?t2\<lparr>tree_heap := h4\<rparr>"
    have ed: "extract_double_node (Some p) t = Some (Inr ?t')"
      using n0(1) lc t1(1) p1 n0(3) nm1(1) h4(1) mne(1) mne(1)[symmetric]
      by (simp add: extract_double_node_def load_node_def store_parent_def)
    have ex: "extract_node (Some p) t = Some (Inr ?t')"
      using n0(1) lc ed by (simp add: extract_node_def load_node_def)
    have fr: "\<forall>y. y \<notin> set (addrs (Br l p v r)) \<longrightarrow> h4 y = ?h y"
    proof (intro allI impI)
      fix y assume y: "y \<notin> set (addrs (Br l p v r))"
      then have "y \<noteq> m" "y \<noteq> p" "y \<notin> set (addrs l @ addrs r')" "y \<notin> set (addrs r)"
        using ar by auto
      then show "h4 y = ?h y" using h4(3) fr1 by simp
    qed
    have dm: "dom h4 = dom ?h"
      using h4(4) t1(7) nm1(1) by auto
    show ?thesis
      unfolding dr using ex t1(3) h4(2) fr dm by (intro exI[of _ ?t']) simp
  qed
qed

section \<open>erase\<close>

lemma del_addrs:
  "lookup T v = Some x \<Longrightarrow> mset (addrs T) = add_mset x (mset (addrs (del v T)))"
proof (induction T)
  case Tip
  then show ?case by simp
next
  case (Br l a w r)
  show ?case
  proof (cases "v < w")
    case True
    then show ?thesis using Br by simp
  next
    case False
    note nlt = this
    show ?thesis
    proof (cases "w < v")
      case True
      then show ?thesis using Br nlt by simp
    next
      case False
      then have "x = a" using Br.prems nlt by simp
      then show ?thesis using nlt False del_root_addrs[of l a w r] by simp
    qed
  qed
qed

lemma del_vals_mset:
  "lookup T v = Some x \<Longrightarrow> mset (vals T) = add_mset v (mset (vals (del v T)))"
proof (induction T)
  case Tip
  then show ?case by simp
next
  case (Br l a w r)
  show ?case
  proof (cases "v < w")
    case True
    then show ?thesis using Br by simp
  next
    case False
    note nlt = this
    show ?thesis
    proof (cases "w < v")
      case True
      then show ?thesis using Br nlt by simp
    next
      case False
      then have "v = w" using nlt by simp
      then show ?thesis using nlt False del_root_vals[of l a w r] by simp
    qed
  qed
qed

lemma del_absent: "lookup T v = None \<Longrightarrow> del v T = T"
  by (induction T) (auto split: if_splits)

lemma del_distinct:
  assumes "lookup T v = Some x" "distinct (addrs T)"
  shows "distinct (addrs (del v T))" "x \<notin> set (addrs (del v T))"
    "set (addrs (del v T)) \<subseteq> set (addrs T)" "x \<in> set (addrs T)"
proof -
  have "mset (addrs T) = add_mset x (mset (addrs (del v T)))" by (rule del_addrs[OF assms(1)])
  then have m: "mset (addrs T) = mset (x # addrs (del v T))" by simp
  have "distinct (x # addrs (del v T))"
    using mset_eq_imp_distinct_iff[OF m] assms(2) by simp
  then show "distinct (addrs (del v T))" "x \<notin> set (addrs (del v T))" by simp_all
  have "set (addrs T) = set (x # addrs (del v T))" using m by (rule mset_eq_setD)
  then show "set (addrs (del v T)) \<subseteq> set (addrs T)" "x \<in> set (addrs T)" by auto
qed

lemma del_length:
  assumes "lookup T v = Some x"
  shows "length (vals (del v T)) + 1 = length (vals T)"
proof -
  have "mset (vals T) = add_mset v (mset (vals (del v T)))" by (rule del_vals_mset[OF assms])
  then have "mset (vals T) = mset (v # vals (del v T))" by simp
  then have "length (vals T) = length (v # vals (del v T))" by (rule mset_eq_length)
  then show ?thesis by simp
qed

lemma extract_node_descent:
  assumes "tree_at (tree_heap t) (Some q) (Some pp) T"
    and "distinct (addrs T)" "pp \<notin> set (addrs T)"
    and "tree_heap t pp = Some np" "left np = Some q \<or> right np = Some q"
    and "lookup T v = Some x"
  shows "\<exists>t'. extract_node (Some x) t = Some (Inr t')
           \<and> root t' = root t \<and> tree_size t' = tree_size t
           \<and> tree_at (tree_heap t') (root_ptr (del v T)) (Some pp) (del v T)
           \<and> tree_heap t' pp = Some (set_child np (Some q) (root_ptr (del v T)))
           \<and> (\<forall>y. y \<notin> set (addrs T) \<and> y \<noteq> pp \<longrightarrow> tree_heap t' y = tree_heap t y)
           \<and> dom (tree_heap t') = dom (tree_heap t)"
  using assms
proof (induction T arbitrary: q pp np)
  case Tip
  then show ?case by simp
next
  case (Br l a w r)
  let ?h = "tree_heap t"
  from Br.prems(1) obtain nq where aq: "a = q" and nq: "?h q = Some nq" "value_v nq = w"
    "parent nq = Some pp" "tree_at ?h (left nq) (Some q) l" "tree_at ?h (right nq) (Some q) r"
    by auto
  have lp: "left nq = root_ptr l" and rp: "right nq = root_ptr r"
    using nq(4,5) by (auto dest: tree_at_root_ptr)
  have d: "distinct (addrs l)" "distinct (addrs r)" "q \<notin> set (addrs l)" "q \<notin> set (addrs r)"
    "set (addrs l) \<inter> set (addrs r) = {}" "pp \<notin> set (addrs l)" "pp \<notin> set (addrs r)" "pp \<noteq> q"
    using Br.prems(2,3) aq by auto
  have same: "?h pp = Some (set_child np (Some q) (Some q))"
    using Br.prems(4,5) by (simp add: set_child_same)
  consider (L) "v < w" | (R) "\<not> v < w" "w < v" | (E) "\<not> v < w" "\<not> w < v" by blast
  then show ?case
  proof cases
    case L
    then have lk: "lookup l v = Some x" using Br.prems(6) by simp
    then obtain b where b: "root_ptr l = Some b" by (cases l) auto
    have tl: "tree_at ?h (Some b) (Some q) l" using nq(4) lp b by simp
    have slot: "left nq = Some b \<or> right nq = Some b" using lp b by simp
    from Br.IH(1)[OF tl d(1,3) nq(1) slot lk] obtain t' where
      t': "extract_node (Some x) t = Some (Inr t')" "root t' = root t" "tree_size t' = tree_size t"
      "tree_at (tree_heap t') (root_ptr (del v l)) (Some q) (del v l)"
      "tree_heap t' q = Some (set_child nq (Some b) (root_ptr (del v l)))"
      "\<forall>y. y \<notin> set (addrs l) \<and> y \<noteq> q \<longrightarrow> tree_heap t' y = ?h y"
      "dom (tree_heap t') = dom ?h"
      by blast
    let ?h' = "tree_heap t'"
    have q': "?h' q = Some (nq\<lparr>left := root_ptr (del v l)\<rparr>)"
      using t'(5) lp b by (simp add: set_child_def)
    have "\<forall>y\<in>set (addrs r). ?h' y = ?h y" using t'(6) d(4,5) by auto
    then have tr: "tree_at ?h' (right nq) (Some q) r" by (rule tree_at_frame[OF nq(5)])
    have dl: "del v (Br l a w r) = Br (del v l) q w r" using L aq by simp
    have tq: "tree_at ?h' (Some q) (Some pp) (Br (del v l) q w r)"
      using q' nq(2,3) t'(4) tr by simp
    have pp': "?h' pp = Some (set_child np (Some q) (Some q))"
      using t'(6) d(6,8) same by simp
    have fr: "\<forall>y. y \<notin> set (addrs (Br l a w r)) \<and> y \<noteq> pp \<longrightarrow> ?h' y = ?h y"
      using t'(6) aq by auto
    show ?thesis
      unfolding dl using t'(1,2,3,7) tq pp' fr by (intro exI[of _ t']) simp
  next
    case R
    then have lk: "lookup r v = Some x" using Br.prems(6) by simp
    then obtain c where c: "root_ptr r = Some c" by (cases r) auto
    have tr: "tree_at ?h (Some c) (Some q) r" using nq(5) rp c by simp
    have "c \<in> set (addrs r)" using c by (cases r) auto
    then have "c \<notin> set (addrs l)" using d(5) by auto
    then have lc: "left nq \<noteq> Some c" using lp root_ptr_notin[of c l] by simp
    have slot: "left nq = Some c \<or> right nq = Some c" using rp c by simp
    from Br.IH(2)[OF tr d(2,4) nq(1) slot lk] obtain t' where
      t': "extract_node (Some x) t = Some (Inr t')" "root t' = root t" "tree_size t' = tree_size t"
      "tree_at (tree_heap t') (root_ptr (del v r)) (Some q) (del v r)"
      "tree_heap t' q = Some (set_child nq (Some c) (root_ptr (del v r)))"
      "\<forall>y. y \<notin> set (addrs r) \<and> y \<noteq> q \<longrightarrow> tree_heap t' y = ?h y"
      "dom (tree_heap t') = dom ?h"
      by blast
    let ?h' = "tree_heap t'"
    have q': "?h' q = Some (nq\<lparr>right := root_ptr (del v r)\<rparr>)"
      using t'(5) rp c lc by (simp add: set_child_def)
    have "\<forall>y\<in>set (addrs l). ?h' y = ?h y" using t'(6) d(3,5) by auto
    then have tl: "tree_at ?h' (left nq) (Some q) l" by (rule tree_at_frame[OF nq(4)])
    have dl: "del v (Br l a w r) = Br l q w (del v r)" using R aq by simp
    have tq: "tree_at ?h' (Some q) (Some pp) (Br l q w (del v r))"
      using q' nq(2,3) t'(4) tl by simp
    have pp': "?h' pp = Some (set_child np (Some q) (Some q))"
      using t'(6) d(7,8) same by simp
    have fr: "\<forall>y. y \<notin> set (addrs (Br l a w r)) \<and> y \<noteq> pp \<longrightarrow> ?h' y = ?h y"
      using t'(6) aq by auto
    show ?thesis
      unfolding dl using t'(1,2,3,7) tq pp' fr by (intro exI[of _ t']) simp
  next
    case E
    then have x: "x = q" using Br.prems(6) aq by simp
    have dl: "del v (Br l a w r) = del_root (Br l q w r)" using E aq by simp
    from extract_node_at_child[OF Br.prems(1)[unfolded aq] Br.prems(2)[unfolded aq]
          Br.prems(3)[unfolded aq] Br.prems(4,5)]
    obtain t' where
      t': "extract_node (Some q) t = Some (Inr t')" "root t' = root t" "tree_size t' = tree_size t"
      "tree_at (tree_heap t') (root_ptr (del_root (Br l q w r))) (Some pp) (del_root (Br l q w r))"
      "tree_heap t' pp = Some (set_child np (Some q) (root_ptr (del_root (Br l q w r))))"
      "\<forall>y. y \<notin> set (addrs (Br l q w r)) \<and> y \<noteq> pp \<longrightarrow> tree_heap t' y = ?h y"
      "dom (tree_heap t') = dom ?h"
      by blast
    have fr: "\<forall>y. y \<notin> set (addrs (Br l a w r)) \<and> y \<noteq> pp \<longrightarrow> tree_heap t' y = ?h y"
      using t'(6) aq by simp
    show ?thesis
      unfolding dl x using t'(1,2,3,4,5,7) fr by (intro exI[of _ t'] conjI)
  qed
qed

lemma extract_node_top:
  assumes "tree_at (tree_heap t) (root t) None T" "distinct (addrs T)" "lookup T v = Some x"
  shows "\<exists>t1. extract_node (Some x) t = Some (Inr t1)
           \<and> root t1 = root_ptr (del v T) \<and> tree_size t1 = tree_size t
           \<and> tree_at (tree_heap t1) (root_ptr (del v T)) None (del v T)
           \<and> (\<forall>y. y \<notin> set (addrs T) \<longrightarrow> tree_heap t1 y = tree_heap t y)
           \<and> dom (tree_heap t1) = dom (tree_heap t)"
proof (cases T)
  case Tip
  then show ?thesis using assms(3) by simp
next
  case (Br l p w r)
  let ?h = "tree_heap t"
  from assms(1) Br obtain n0 where rt: "root t = Some p" and n0: "?h p = Some n0" "value_v n0 = w"
    "parent n0 = None" "tree_at ?h (left n0) (Some p) l" "tree_at ?h (right n0) (Some p) r"
    by auto
  have lp: "left n0 = root_ptr l" and rp: "right n0 = root_ptr r"
    using n0(4,5) by (auto dest: tree_at_root_ptr)
  have d: "distinct (addrs l)" "distinct (addrs r)" "p \<notin> set (addrs l)" "p \<notin> set (addrs r)"
    "set (addrs l) \<inter> set (addrs r) = {}"
    using assms(2) Br by auto
  consider (L) "v < w" | (R) "\<not> v < w" "w < v" | (E) "\<not> v < w" "\<not> w < v" by blast
  then show ?thesis
  proof cases
    case L
    then have lk: "lookup l v = Some x" using assms(3) Br by simp
    then obtain b where b: "root_ptr l = Some b" by (cases l) auto
    have tl: "tree_at ?h (Some b) (Some p) l" using n0(4) lp b by simp
    have slot: "left n0 = Some b \<or> right n0 = Some b" using lp b by simp
    from extract_node_descent[OF tl d(1,3) n0(1) slot lk] obtain t' where
      t': "extract_node (Some x) t = Some (Inr t')" "root t' = root t" "tree_size t' = tree_size t"
      "tree_at (tree_heap t') (root_ptr (del v l)) (Some p) (del v l)"
      "tree_heap t' p = Some (set_child n0 (Some b) (root_ptr (del v l)))"
      "\<forall>y. y \<notin> set (addrs l) \<and> y \<noteq> p \<longrightarrow> tree_heap t' y = ?h y"
      "dom (tree_heap t') = dom ?h"
      by blast
    let ?h' = "tree_heap t'"
    have p': "?h' p = Some (n0\<lparr>left := root_ptr (del v l)\<rparr>)"
      using t'(5) lp b by (simp add: set_child_def)
    have "\<forall>y\<in>set (addrs r). ?h' y = ?h y" using t'(6) d(4,5) by auto
    then have tr: "tree_at ?h' (right n0) (Some p) r" by (rule tree_at_frame[OF n0(5)])
    have dl: "del v T = Br (del v l) p w r" using L Br by simp
    have tq: "tree_at ?h' (Some p) None (Br (del v l) p w r)"
      using p' n0(2,3) t'(4) tr by simp
    have fr: "\<forall>y. y \<notin> set (addrs T) \<longrightarrow> ?h' y = ?h y"
      using t'(6) Br by auto
    show ?thesis
      unfolding dl using t'(1,2,3,7) rt tq fr by (intro exI[of _ t']) simp
  next
    case R
    then have lk: "lookup r v = Some x" using assms(3) Br by simp
    then obtain c where c: "root_ptr r = Some c" by (cases r) auto
    have tr: "tree_at ?h (Some c) (Some p) r" using n0(5) rp c by simp
    have "c \<in> set (addrs r)" using c by (cases r) auto
    then have "c \<notin> set (addrs l)" using d(5) by auto
    then have lc: "left n0 \<noteq> Some c" using lp root_ptr_notin[of c l] by simp
    have slot: "left n0 = Some c \<or> right n0 = Some c" using rp c by simp
    from extract_node_descent[OF tr d(2,4) n0(1) slot lk] obtain t' where
      t': "extract_node (Some x) t = Some (Inr t')" "root t' = root t" "tree_size t' = tree_size t"
      "tree_at (tree_heap t') (root_ptr (del v r)) (Some p) (del v r)"
      "tree_heap t' p = Some (set_child n0 (Some c) (root_ptr (del v r)))"
      "\<forall>y. y \<notin> set (addrs r) \<and> y \<noteq> p \<longrightarrow> tree_heap t' y = ?h y"
      "dom (tree_heap t') = dom ?h"
      by blast
    let ?h' = "tree_heap t'"
    have p': "?h' p = Some (n0\<lparr>right := root_ptr (del v r)\<rparr>)"
      using t'(5) rp c lc by (simp add: set_child_def)
    have "\<forall>y\<in>set (addrs l). ?h' y = ?h y" using t'(6) d(3,5) by auto
    then have tl: "tree_at ?h' (left n0) (Some p) l" by (rule tree_at_frame[OF n0(4)])
    have dl: "del v T = Br l p w (del v r)" using R Br by simp
    have tq: "tree_at ?h' (Some p) None (Br l p w (del v r))"
      using p' n0(2,3) t'(4) tl by simp
    have fr: "\<forall>y. y \<notin> set (addrs T) \<longrightarrow> ?h' y = ?h y"
      using t'(6) Br by auto
    show ?thesis
      unfolding dl using t'(1,2,3,7) rt tq fr by (intro exI[of _ t']) simp
  next
    case E
    then have x: "x = p" using assms(3) Br by simp
    have dl: "del v T = del_root (Br l p w r)" using E Br by simp
    have tp: "tree_at ?h (Some p) None (Br l p w r)" using assms(1) rt Br by simp
    have dp: "distinct (addrs (Br l p w r))" using assms(2) Br by simp
    from extract_node_at_root[OF tp dp] obtain t' where
      t': "extract_node (Some p) t = Some (Inr t')"
      "root t' = root_ptr (del_root (Br l p w r))" "tree_size t' = tree_size t"
      "tree_at (tree_heap t') (root_ptr (del_root (Br l p w r))) None (del_root (Br l p w r))"
      "\<forall>y. y \<notin> set (addrs (Br l p w r)) \<longrightarrow> tree_heap t' y = ?h y"
      "dom (tree_heap t') = dom ?h"
      by blast
    have fr: "\<forall>y. y \<notin> set (addrs T) \<longrightarrow> tree_heap t' y = ?h y" using t'(5) Br by simp
    show ?thesis
      unfolding dl x using t'(1,2,3,4,6) fr by (intro exI[of _ t'] conjI)
  qed
qed

lemma erase_present:
  assumes "wf_tree t T" "lookup T v = Some x"
  shows "\<exists>t'. erase v t = Some (Inr t') \<and> wf_tree t' (del v T)
           \<and> tree_size t' + 1 = tree_size t
           \<and> dom (tree_heap t') = dom (tree_heap t) - {x}
           \<and> (\<forall>y. y \<notin> set (addrs T) \<longrightarrow> tree_heap t' y = tree_heap t y)"
proof -
  let ?h = "tree_heap t"
  from assms(1) have T: "tree_at ?h (root t) None T" and d: "distinct (addrs T)" and b: "bst T"
    and sz: "tree_size t = length (vals T)"
    by (simp_all add: wf_tree_def)
  from extract_node_top[OF T d assms(2)] obtain t1 where
    t1: "extract_node (Some x) t = Some (Inr t1)"
    "root t1 = root_ptr (del v T)" "tree_size t1 = tree_size t"
    "tree_at (tree_heap t1) (root_ptr (del v T)) None (del v T)"
    "\<forall>y. y \<notin> set (addrs T) \<longrightarrow> tree_heap t1 y = ?h y"
    "dom (tree_heap t1) = dom ?h"
    by blast
  note dd = del_distinct[OF assms(2) d]
  have "x \<in> dom ?h" using dd(4) tree_at_dom[OF T] by auto
  then have xd: "x \<in> dom (tree_heap t1)" using t1(6) by simp
  let ?h2 = "(tree_heap t1)(x := None)"
  let ?t' = "t1\<lparr>tree_heap := ?h2, tree_size := tree_size t1 - 1\<rparr>"
  have fa: "find_at ?h (root t) v = Some (Inr (Some x))"
    using find_at_lookup[OF T] assms(2) by simp
  have er: "erase v t = Some (Inr ?t')"
    using fa t1(1) xd by (simp add: erase_def delete_tree_node_def)
  have "\<forall>y\<in>set (addrs (del v T)). ?h2 y = tree_heap t1 y" using dd(2) by auto
  then have t2: "tree_at ?h2 (root_ptr (del v T)) None (del v T)" by (rule tree_at_frame[OF t1(4)])
  have len: "length (vals (del v T)) + 1 = length (vals T)" by (rule del_length[OF assms(2)])
  have wf: "wf_tree ?t' (del v T)"
    using t2 t1(2,3) dd(1) del_bst[OF b] sz len by (simp add: wf_tree_def)
  have s1: "tree_size ?t' + 1 = tree_size t" using t1(3) sz len by simp
  have dm: "dom (tree_heap ?t') = dom ?h - {x}" using t1(6) by auto
  have fr: "\<forall>y. y \<notin> set (addrs T) \<longrightarrow> tree_heap ?t' y = ?h y"
    using t1(5) dd(4) by auto
  show ?thesis using er wf s1 dm fr by (intro exI[of _ ?t'] conjI)
qed

lemma erase_absent:
  assumes "wf_tree t T" "lookup T v = None"
  shows "erase v t = Some (Inr t)"
proof -
  from assms(1) have T: "tree_at (tree_heap t) (root t) None T" by (simp add: wf_tree_def)
  show ?thesis using find_at_lookup[OF T] assms(2) by (simp add: erase_def)
qed

lemma contains_wf:
  assumes "wf_tree t T"
  shows "contains v t = Some (Inr (v \<in> set (vals T)))"
proof -
  from assms have T: "tree_at (tree_heap t) (root t) None T" and b: "bst T"
    by (simp_all add: wf_tree_def)
  show ?thesis using find_at_lookup[OF T, of v] lookup_iff[OF b, of v]
    by (simp add: contains_def)
qed

section \<open>insert\<close>

lemma ins_root_ptr: "T \<noteq> Tip \<Longrightarrow> root_ptr (ins a v T) = root_ptr T"
  by (cases T) auto

lemma ins_addrs:
  "mset (addrs (ins a v T)) = (if lookup T v = None then add_mset a (mset (addrs T)) else mset (addrs T))"
  by (induction T) auto

lemma ins_vals_mset:
  "mset (vals (ins a v T)) = (if lookup T v = None then add_mset v (mset (vals T)) else mset (vals T))"
  by (induction T) auto

lemma ins_vals_set: "set (vals (ins a v T)) = (if lookup T v = None then insert v (set (vals T)) else set (vals T))"
proof -
  have "set (vals (ins a v T)) = set_mset (mset (vals (ins a v T)))" by simp
  also have "\<dots> = (if lookup T v = None then insert v (set (vals T)) else set (vals T))"
    unfolding ins_vals_mset by simp
  finally show ?thesis .
qed

lemma ins_bst: "bst T \<Longrightarrow> bst (ins a v T)"
proof (induction T)
  case Tip
  then show ?case by simp
next
  case (Br l b w r)
  then show ?case using ins_vals_set[of a v l] ins_vals_set[of a v r]
    by (auto split: if_splits)
qed

lemma ins_present: "lookup T v \<noteq> None \<Longrightarrow> ins a v T = T"
  by (induction T) (auto split: if_splits)

lemma try_insert_tree:
  assumes "tree_at h (Some q) par T" "distinct (addrs T)" "a \<notin> set (addrs T)"
    and "h a = Some na" "value_v na = v" "left na = None" "right na = None"
  shows "(lookup T v \<noteq> None \<longrightarrow> try_insert (Some q) (Some a) h = Some (Inr (False, h)))
       \<and> (lookup T v = None \<longrightarrow>
            (\<exists>h'. try_insert (Some q) (Some a) h = Some (Inr (True, h'))
               \<and> tree_at h' (Some q) par (ins a v T)
               \<and> (\<forall>y. y \<notin> set (addrs T) \<and> y \<noteq> a \<longrightarrow> h' y = h y)
               \<and> dom h' = dom h))"
  using assms(1,2,3)
proof (induction T arbitrary: q par)
  case Tip
  then show ?case by simp
next
  case (Br l b w r)
  from Br.prems(1) obtain nq where bq: "b = q" and nq: "h q = Some nq" "value_v nq = w"
    "parent nq = par" "tree_at h (left nq) (Some q) l" "tree_at h (right nq) (Some q) r"
    by auto
  have lp: "left nq = root_ptr l" and rp: "right nq = root_ptr r"
    using nq(4,5) by (auto dest: tree_at_root_ptr)
  have d: "distinct (addrs l)" "distinct (addrs r)" "q \<notin> set (addrs l)" "q \<notin> set (addrs r)"
    "set (addrs l) \<inter> set (addrs r) = {}" "a \<notin> set (addrs l)" "a \<notin> set (addrs r)" "a \<noteq> q"
    using Br.prems(2,3) bq by auto
  have leaf: "tree_at h (Some a) (parent na) (Br Tip a v Tip)"
    using assms(4-7) by simp
  have ld: "load_node h (Some a) = Inr na" "load_node h (Some q) = Inr nq"
    using assms(4) nq(1) by (simp_all add: load_node_def)
  consider (L) "v < w" | (R) "\<not> v < w" "w < v" | (E) "\<not> v < w" "\<not> w < v" by blast
  then show ?case
  proof cases
    case L
    show ?thesis
    proof (cases l)
      case Tip
      have da: "distinct (addrs (Br Tip a v Tip))" "q \<notin> set (addrs (Br Tip a v Tip))"
        using d(8) by auto
      from attach_on_left_tree[OF nq(1) leaf da] obtain h' where
        h': "attach_on_left (Some q) (Some a) h = Inr h'" "h' q = Some (nq\<lparr>left := Some a\<rparr>)"
        "tree_at h' (Some a) (Some q) (Br Tip a v Tip)"
        "\<forall>x. x \<noteq> q \<and> Some x \<noteq> Some a \<longrightarrow> h' x = h x" "dom h' = dom h"
        by blast
      have ti: "try_insert (Some q) (Some a) h = Some (Inr (True, h'))"
        using ld L lp Tip h'(1) assms(5) nq(2)
        by (subst try_insert.simps) simp
      have "\<forall>y\<in>set (addrs r). h' y = h y" using h'(4) d(4,7) by auto
      then have tr: "tree_at h' (right nq) (Some q) r" by (rule tree_at_frame[OF nq(5)])
      have "tree_at h' (Some q) par (Br (Br Tip a v Tip) q w r)"
        using h'(2,3) nq(2,3) tr by simp
      then show ?thesis using ti L Tip bq h'(4,5) by simp
    next
      case (Br ll c lw lr)
      then have lc: "left nq = Some c" using lp by simp
      have tl: "tree_at h (Some c) (Some q) l" using nq(4) lc by simp
      have st: "try_insert (Some q) (Some a) h = try_insert (Some c) (Some a) h"
        using ld L lc assms(5) nq(2) by (subst try_insert.simps) simp
      note IH = Br.IH(1)[OF tl d(1,6)]
      show ?thesis
      proof (cases "lookup l v = None")
        case False
        then show ?thesis using IH st L by simp
      next
        case True
        with IH obtain h' where
          h': "try_insert (Some c) (Some a) h = Some (Inr (True, h'))"
          "tree_at h' (Some c) (Some q) (ins a v l)"
          "\<forall>y. y \<notin> set (addrs l) \<and> y \<noteq> a \<longrightarrow> h' y = h y" "dom h' = dom h"
          by blast
        have q': "h' q = Some nq" using h'(3) d(3,8) nq(1) by simp
        have "\<forall>y\<in>set (addrs r). h' y = h y" using h'(3) d(5,7) by auto
        then have tr: "tree_at h' (right nq) (Some q) r" by (rule tree_at_frame[OF nq(5)])
        have "tree_at h' (Some q) par (Br (ins a v l) q w r)"
          using q' lc nq(2,3) h'(2) tr by simp
        then show ?thesis using st h'(1,3,4) L True bq by auto
      qed
    qed
  next
    case R
    show ?thesis
    proof (cases r)
      case Tip
      have da: "distinct (addrs (Br Tip a v Tip))" "q \<notin> set (addrs (Br Tip a v Tip))"
        using d(8) by auto
      from attach_on_right_tree[OF nq(1) leaf da] obtain h' where
        h': "attach_on_right (Some q) (Some a) h = Inr h'" "h' q = Some (nq\<lparr>right := Some a\<rparr>)"
        "tree_at h' (Some a) (Some q) (Br Tip a v Tip)"
        "\<forall>x. x \<noteq> q \<and> Some x \<noteq> Some a \<longrightarrow> h' x = h x" "dom h' = dom h"
        by blast
      have ti: "try_insert (Some q) (Some a) h = Some (Inr (True, h'))"
        using ld R rp Tip h'(1) assms(5) nq(2)
        by (subst try_insert.simps) simp
      have "\<forall>y\<in>set (addrs l). h' y = h y" using h'(4) d(3,6) by auto
      then have tl: "tree_at h' (left nq) (Some q) l" by (rule tree_at_frame[OF nq(4)])
      have "tree_at h' (Some q) par (Br l q w (Br Tip a v Tip))"
        using h'(2,3) nq(2,3) tl by simp
      then show ?thesis using ti R Tip bq h'(4,5) by simp
    next
      case (Br rl c rw rr)
      then have rc: "right nq = Some c" using rp by simp
      have tr: "tree_at h (Some c) (Some q) r" using nq(5) rc by simp
      have st: "try_insert (Some q) (Some a) h = try_insert (Some c) (Some a) h"
        using ld R rc assms(5) nq(2) by (subst try_insert.simps) simp
      note IH = Br.IH(2)[OF tr d(2,7)]
      show ?thesis
      proof (cases "lookup r v = None")
        case False
        then show ?thesis using IH st R by simp
      next
        case True
        with IH obtain h' where
          h': "try_insert (Some c) (Some a) h = Some (Inr (True, h'))"
          "tree_at h' (Some c) (Some q) (ins a v r)"
          "\<forall>y. y \<notin> set (addrs r) \<and> y \<noteq> a \<longrightarrow> h' y = h y" "dom h' = dom h"
          by blast
        have q': "h' q = Some nq" using h'(3) d(4,8) nq(1) by simp
        have "\<forall>y\<in>set (addrs l). h' y = h y" using h'(3) d(5,6) by auto
        then have tl: "tree_at h' (left nq) (Some q) l" by (rule tree_at_frame[OF nq(4)])
        have "tree_at h' (Some q) par (Br l q w (ins a v r))"
          using q' rc nq(2,3) h'(2) tl by simp
        then show ?thesis using st h'(1,3,4) R True bq by auto
      qed
    qed
  next
    case E
    have "try_insert (Some q) (Some a) h = Some (Inr (False, h))"
      using ld E assms(5) nq(2) by (subst try_insert.simps) simp
    then show ?thesis using E by simp
  qed
qed

lemma fun_upd_fresh_delete: "h a = None \<Longrightarrow> (h(a \<mapsto> n))(a := None) = h"
  by (rule ext) simp

lemma emplace_duplicate:
  assumes "wf_tree t T" "lookup T v \<noteq> None" "a \<notin> dom (tree_heap t)"
  shows "emplace a v t = Some (Inr (False, t))"
proof -
  let ?h = "tree_heap t" let ?hn = "(tree_heap t)(a \<mapsto> tree_node_new v)"
  from assms(1) have T: "tree_at ?h (root t) None T" and d: "distinct (addrs T)"
    and sz: "tree_size t = length (vals T)"
    by (simp_all add: wf_tree_def)
  from assms(2) obtain l p w r where Br: "T = Br l p w r" by (cases T) auto
  then have rt: "root t = Some p" using T by simp
  have ne: "\<not> empty_tree t" using sz Br by (simp add: empty_tree_def size_tree_def)
  have an: "a \<notin> set (addrs T)" using tree_at_dom[OF T] assms(3) by auto
  then have "\<forall>x\<in>set (addrs T). ?hn x = ?h x" by auto
  then have T0: "tree_at ?hn (Some p) None T" using T rt by (auto intro: tree_at_frame)
  have "try_insert (Some p) (Some a) ?hn = Some (Inr (False, ?hn))"
    using try_insert_tree[OF T0 d an, of "tree_node_new v" v] assms(2)
    by (simp add: tree_node_new_def)
  moreover have "?hn(a := None) = ?h" using assms(3) by (intro fun_upd_fresh_delete) auto
  ultimately show ?thesis
    using ne rt by (simp add: emplace_def delete_tree_node_def)
qed

lemma emplace_new:
  assumes "wf_tree t T" "lookup T v = None" "a \<notin> dom (tree_heap t)"
  shows "\<exists>t'. emplace a v t = Some (Inr (True, t')) \<and> wf_tree t' (ins a v T)
           \<and> tree_size t' = tree_size t + 1
           \<and> dom (tree_heap t') = insert a (dom (tree_heap t))
           \<and> (\<forall>y. y \<notin> set (addrs T) \<and> y \<noteq> a \<longrightarrow> tree_heap t' y = tree_heap t y)"
proof -
  let ?h = "tree_heap t" let ?hn = "(tree_heap t)(a \<mapsto> tree_node_new v)"
  from assms(1) have T: "tree_at ?h (root t) None T" and d: "distinct (addrs T)" and b: "bst T"
    and sz: "tree_size t = length (vals T)"
    by (simp_all add: wf_tree_def)
  have an: "a \<notin> set (addrs T)" using tree_at_dom[OF T] assms(3) by auto
  have ma: "mset (addrs (ins a v T)) = mset (a # addrs T)" using assms(2) by (simp add: ins_addrs)
  have di: "distinct (addrs (ins a v T))"
    using mset_eq_imp_distinct_iff[OF ma] d an by simp
  have "mset (vals (ins a v T)) = mset (v # vals T)" using assms(2) by (simp add: ins_vals_mset)
  then have "length (vals (ins a v T)) = length (v # vals T)" by (rule mset_eq_length)
  then have len: "length (vals (ins a v T)) = length (vals T) + 1" by simp
  show ?thesis
  proof (cases T)
    case Tip
    then have e: "empty_tree t" using sz by (simp add: empty_tree_def size_tree_def)
    let ?t' = "t\<lparr>tree_heap := ?hn, root := Some a, tree_size := tree_size t + 1\<rparr>"
    have "emplace a v t = Some (Inr (True, ?t'))" using e by (simp add: emplace_def)
    moreover have "wf_tree ?t' (ins a v T)"
      using Tip sz by (simp add: wf_tree_def tree_node_new_def)
    ultimately show ?thesis by (intro exI[of _ ?t']) auto
  next
    case (Br l p w r)
    then have rt: "root t = Some p" using T by simp
    have ne: "\<not> empty_tree t" using sz Br by (simp add: empty_tree_def size_tree_def)
    have "\<forall>x\<in>set (addrs T). ?hn x = ?h x" using an by auto
    then have T0: "tree_at ?hn (Some p) None T" using T rt by (auto intro: tree_at_frame)
    from try_insert_tree[OF T0 d an, of "tree_node_new v" v] assms(2) obtain h' where
      h': "try_insert (Some p) (Some a) ?hn = Some (Inr (True, h'))"
      "tree_at h' (Some p) None (ins a v T)"
      "\<forall>y. y \<notin> set (addrs T) \<and> y \<noteq> a \<longrightarrow> h' y = ?hn y" "dom h' = dom ?hn"
      by (auto simp: tree_node_new_def)
    let ?t' = "t\<lparr>tree_heap := h', tree_size := tree_size t + 1\<rparr>"
    have em: "emplace a v t = Some (Inr (True, ?t'))"
      using ne rt h'(1) by (simp add: emplace_def)
    have wf: "wf_tree ?t' (ins a v T)"
      using h'(2) rt di ins_bst[OF b] sz len by (simp add: wf_tree_def)
    have "\<forall>y. y \<notin> set (addrs T) \<and> y \<noteq> a \<longrightarrow> h' y = ?h y" using h'(3) by simp
    then show ?thesis using em wf h'(4) by (intro exI[of _ ?t']) simp
  qed
qed

section \<open>In-order traversal and reachable states\<close>

text \<open>The values met when the pointer structure is walked in order.\<close>

partial_function (option) inorder_at ::
  "'a node_heap \<Rightarrow> addr option \<Rightarrow> (error + 'a list) option" where
  "inorder_at h p =
     (case p of None \<Rightarrow> Some (Inr [])
      | Some a \<Rightarrow>
         (case h a of None \<Rightarrow> Some (Inl InvalidAccess)
          | Some n \<Rightarrow>
              Option.bind (inorder_at h (left n)) (\<lambda>rl.
                case rl of Inl e \<Rightarrow> Some (Inl e)
                | Inr ls \<Rightarrow>
                    Option.bind (inorder_at h (right n)) (\<lambda>rr.
                      case rr of Inl e \<Rightarrow> Some (Inl e)
                      | Inr rs \<Rightarrow> Some (Inr (ls @ value_v n # rs))))))"

declare inorder_at.simps [code]

definition inorder_traversal :: "'a tree \<Rightarrow> (error + 'a list) option" where
  "inorder_traversal t = inorder_at (tree_heap t) (root t)"

lemma inorder_at_tree: "tree_at h p par T \<Longrightarrow> inorder_at h p = Some (Inr (vals T))"
proof (induction T arbitrary: p par)
  case Tip
  then show ?case by (subst inorder_at.simps) simp
next
  case (Br l a v r)
  from Br.prems obtain n where n: "p = Some a" "h a = Some n" "value_v n = v"
    "tree_at h (left n) (Some a) l" "tree_at h (right n) (Some a) r"
    by auto
  show ?case
    using n(1,2,3) Br.IH(1)[OF n(4)] Br.IH(2)[OF n(5)]
    by (subst inorder_at.simps) simp
qed

text \<open>The states a sequence of \<open>insert\<close> and \<open>erase\<close> calls reaches from the empty tree;
  \<open>new\<close> may return any address that is not allocated.\<close>

inductive reachable :: "('a::linorder) tree \<Rightarrow> bool" where
  reach_init: "reachable tree_init"
| reach_insert: "reachable t \<Longrightarrow> new_node \<notin> dom (tree_heap t) \<Longrightarrow>
     insert_tree new_node v t = Some (Inr (b, t')) \<Longrightarrow> reachable t'"
| reach_erase: "reachable t \<Longrightarrow> erase v t = Some (Inr t') \<Longrightarrow> reachable t'"

lemma wf_tree_init: "wf_tree tree_init Tip"
  by (simp add: wf_tree_def tree_init_def)

lemma insert_tree_wf:
  assumes "wf_tree t T" "a \<notin> dom (tree_heap t)"
  shows "\<exists>b t'. insert_tree a v t = Some (Inr (b, t')) \<and> wf_tree t' (ins a v T)"
proof (cases "lookup T v = None")
  case True
  from emplace_new[OF assms(1) True assms(2)] show ?thesis
    unfolding insert_tree_def by blast
next
  case False
  from emplace_duplicate[OF assms(1) False assms(2)] assms(1) ins_present[OF False]
  show ?thesis unfolding insert_tree_def by auto
qed

lemma erase_wf:
  assumes "wf_tree t T"
  shows "\<exists>t'. erase v t = Some (Inr t') \<and> wf_tree t' (del v T)"
proof (cases "lookup T v")
  case None
  then show ?thesis using erase_absent[OF assms None] assms del_absent[OF None] by simp
next
  case (Some x)
  from erase_present[OF assms Some] show ?thesis by blast
qed

lemma reachable_wf: "reachable t \<Longrightarrow> \<exists>T. wf_tree t T"
proof (induction rule: reachable.induct)
  case reach_init
  then show ?case using wf_tree_init by blast
next
  case (reach_insert t new_node v b t')
  then obtain T where T: "wf_tree t T" by blast
  from insert_tree_wf[OF T reach_insert.hyps(2), of v] reach_insert.hyps(3)
  show ?case by auto
next
  case (reach_erase t v t')
  then obtain T where T: "wf_tree t T" by blast
  from erase_wf[OF T, of v] reach_erase.hyps(2) show ?case by auto
qed

section \<open>The claims about the tree\<close>

text \<open>The tree after inserting 5, 3, 8, 1, 4 into nodes at the addresses 1 to 5.\<close>

definition tree5 :: "int tree" where
  "tree5 =
     \<lparr>tree_heap =
        [1 \<mapsto> \<lparr>value_v = 5, parent = None, left = Some 2, right = Some 3\<rparr>,
         2 \<mapsto> \<lparr>value_v = 3, parent = Some 1, left = Some 4, right = Some 5\<rparr>,
         3 \<mapsto> \<lparr>value_v = 8, parent = Some 1, left = None, right = None\<rparr>,
         4 \<mapsto> \<lparr>value_v = 1, parent = Some 2, left = None, right = None\<rparr>,
         5 \<mapsto> \<lparr>value_v = 4, parent = Some 2, left = None, right = None\<rparr>],
       root = Some 1, tree_size = 5\<rparr>"

definition atree5 :: "int atree" where
  "atree5 = Br (Br (Br Tip 4 1 Tip) 2 3 (Br Tip 5 4 Tip)) 1 5 (Br Tip 3 8 Tip)"

lemma wf_tree5: "wf_tree tree5 atree5"
  by (simp add: wf_tree_def tree5_def atree5_def)

text \<open>
  Claim C1. On every well-formed tree \<open>erase v\<close> returns a well-formed tree that does not
  contain \<open>v\<close>. If \<open>v\<close> was contained before, \<open>size()\<close> is smaller by exactly one; if it
  was not, the tree is the one before, so \<open>size()\<close> is unchanged.
\<close>

theorem erase_contains_size:
  assumes "wf_tree t T"
  shows "\<exists>t' T' b. erase v t = Some (Inr t') \<and> wf_tree t' T'
           \<and> contains v t' = Some (Inr False)
           \<and> contains v t = Some (Inr b)
           \<and> (contains v t = Some (Inr True) \<longrightarrow> size_tree t' + 1 = size_tree t)
           \<and> (contains v t = Some (Inr False) \<longrightarrow> t' = t \<and> size_tree t' = size_tree t)"
proof -
  from assms have b: "bst T" by (simp add: wf_tree_def)
  have c: "contains v t = Some (Inr (v \<in> set (vals T)))" by (rule contains_wf[OF assms])
  show ?thesis
  proof (cases "lookup T v")
    case None
    then have nv: "v \<notin> set (vals T)" using lookup_iff[OF b, of v] by simp
    have "erase v t = Some (Inr t)" by (rule erase_absent[OF assms None])
    then show ?thesis using assms c nv by (intro exI[of _ t] exI[of _ T] exI[of _ False]) simp
  next
    case (Some x)
    then have iv: "v \<in> set (vals T)" using lookup_iff[OF b, of v] by simp
    from erase_present[OF assms Some] obtain t' where
      t': "erase v t = Some (Inr t')" "wf_tree t' (del v T)" "tree_size t' + 1 = tree_size t"
      by blast
    have "contains v t' = Some (Inr (v \<in> set (vals (del v T))))" by (rule contains_wf[OF t'(2)])
    then have c': "contains v t' = Some (Inr False)" using del_vals[OF b, of v] by simp
    show ?thesis
      using t' c c' iv
      by (intro exI[of _ t'] exI[of _ "del v T"] exI[of _ True]) (simp add: size_tree_def)
  qed
qed

theorem erase_contains_size_witness:
  "wf_tree tree5 atree5
   \<and> contains 3 tree5 = Some (Inr True)
   \<and> (\<exists>t'. erase 3 tree5 = Some (Inr t') \<and> contains 3 t' = Some (Inr False)
          \<and> size_tree t' + 1 = size_tree tree5)
   \<and> contains 7 tree5 = Some (Inr False)
   \<and> erase 7 tree5 = Some (Inr tree5)"
proof -
  have c3: "contains 3 tree5 = Some (Inr True)"
    using contains_wf[OF wf_tree5, of 3] by (simp add: atree5_def)
  have c7: "contains 7 tree5 = Some (Inr False)"
    using contains_wf[OF wf_tree5, of 7] by (simp add: atree5_def)
  from erase_contains_size[OF wf_tree5, of 3] c3
  have a: "\<exists>t'. erase 3 tree5 = Some (Inr t') \<and> contains 3 t' = Some (Inr False)
          \<and> size_tree t' + 1 = size_tree tree5"
    by auto
  from erase_contains_size[OF wf_tree5, of 7] c7
  have b: "erase 7 tree5 = Some (Inr tree5)" by auto
  show ?thesis using wf_tree5 c3 c7 a b by (intro conjI)
qed

text \<open>
  Claim C4. On every well-formed tree that contains \<open>v\<close>, \<open>insert v\<close> returns false and
  the state afterwards is the state before: the same store, root and size. The node
  that \<open>emplace\<close> allocated for the attempt is released again.
\<close>

theorem insert_duplicate_unchanged:
  assumes "wf_tree t T" "contains v t = Some (Inr True)" "new_node \<notin> dom (tree_heap t)"
  shows "insert_tree new_node v t = Some (Inr (False, t))"
proof -
  from assms(1) have b: "bst T" by (simp add: wf_tree_def)
  have "contains v t = Some (Inr (v \<in> set (vals T)))" by (rule contains_wf[OF assms(1)])
  with assms(2) have "v \<in> set (vals T)" by simp
  then have "lookup T v \<noteq> None" using lookup_iff[OF b, of v] by simp
  from emplace_duplicate[OF assms(1) this assms(3)] show ?thesis
    by (simp add: insert_tree_def)
qed

theorem insert_duplicate_unchanged_witness:
  "wf_tree tree5 atree5 \<and> contains 4 tree5 = Some (Inr True) \<and> 6 \<notin> dom (tree_heap tree5)
   \<and> insert_tree 6 4 tree5 = Some (Inr (False, tree5))"
proof -
  have c: "contains 4 tree5 = Some (Inr True)"
    using contains_wf[OF wf_tree5, of 4] by (simp add: atree5_def)
  have f: "6 \<notin> dom (tree_heap tree5)" by (simp add: tree5_def)
  from insert_duplicate_unchanged[OF wf_tree5 c f] wf_tree5 c f show ?thesis by (intro conjI)
qed

text \<open>
  Claim C2. Every state that a sequence of \<open>insert\<close> and \<open>erase\<close> calls reaches from the
  empty tree represents a tree \<open>T\<close> with the ordering invariant \<open>bst T\<close> (all values in a
  node's left subtree are less, all in its right subtree greater), without duplicate
  values; the in-order walk of the pointer structure returns the values of \<open>T\<close>, a
  strictly ascending sequence. From such a state every further \<open>insert\<close> and \<open>erase\<close>
  returns, again in such a state.
\<close>

theorem reachable_bst:
  assumes "reachable t"
  shows "\<exists>T. wf_tree t T \<and> bst T \<and> distinct (vals T) \<and> sorted_wrt (<) (vals T)
           \<and> inorder_traversal t = Some (Inr (vals T))
           \<and> (\<forall>v a. a \<notin> dom (tree_heap t) \<longrightarrow>
                 (\<exists>b t'. insert_tree a v t = Some (Inr (b, t')) \<and> reachable t'))
           \<and> (\<forall>v. \<exists>t'. erase v t = Some (Inr t') \<and> reachable t')"
proof -
  from reachable_wf[OF assms] obtain T where T: "wf_tree t T" by blast
  then have b: "bst T" and ta: "tree_at (tree_heap t) (root t) None T"
    by (simp_all add: wf_tree_def)
  have s: "sorted_wrt (<) (vals T)" by (rule bst_sorted[OF b])
  then have d: "distinct (vals T)" by (simp add: strict_sorted_iff)
  have io: "inorder_traversal t = Some (Inr (vals T))"
    using inorder_at_tree[OF ta] by (simp add: inorder_traversal_def)
  have i: "\<exists>b t'. insert_tree a v t = Some (Inr (b, t')) \<and> reachable t'"
    if "a \<notin> dom (tree_heap t)" for v a
  proof -
    from insert_tree_wf[OF T that, of v] obtain b t' where
      "insert_tree a v t = Some (Inr (b, t'))" by blast
    with reach_insert[OF assms that this] show ?thesis by blast
  qed
  have e: "\<exists>t'. erase v t = Some (Inr t') \<and> reachable t'" for v
  proof -
    from erase_wf[OF T, of v] obtain t' where "erase v t = Some (Inr t')" by blast
    with reach_erase[OF assms this] show ?thesis by blast
  qed
  show ?thesis using T b d s io i e by blast
qed

text \<open>Insert 5 at address 2, insert 3 at address 3, erase 5.\<close>

definition tree_a :: "int tree" where
  "tree_a = \<lparr>tree_heap = [2 \<mapsto> \<lparr>value_v = 5, parent = None, left = None, right = None\<rparr>],
             root = Some 2, tree_size = 1\<rparr>"

definition tree_b :: "int tree" where
  "tree_b = \<lparr>tree_heap = [2 \<mapsto> \<lparr>value_v = 5, parent = None, left = Some 3, right = None\<rparr>,
                          3 \<mapsto> \<lparr>value_v = 3, parent = Some 2, left = None, right = None\<rparr>],
             root = Some 2, tree_size = 2\<rparr>"

definition tree_c :: "int tree" where
  "tree_c = \<lparr>tree_heap = [3 \<mapsto> \<lparr>value_v = 3, parent = None, left = None, right = None\<rparr>],
             root = Some 3, tree_size = 1\<rparr>"

lemma insert_init: "insert_tree 2 5 tree_init = Some (Inr (True, tree_a))"
  by (simp add: insert_tree_def emplace_def tree_init_def tree_a_def empty_tree_def size_tree_def
        tree_node_new_def)

lemma insert_a: "insert_tree 3 3 tree_a = Some (Inr (True, tree_b))"
  by (simp add: insert_tree_def emplace_def tree_a_def tree_b_def empty_tree_def size_tree_def
        tree_node_new_def try_insert.simps[of "Some 2" "Some 3"] load_node_def
        attach_on_left_def store_left_def store_parent_def fun_upd_twist)

lemma erase_b: "erase 5 tree_b = Some (Inr tree_c)"
  by (simp add: erase_def tree_b_def tree_c_def find_at.simps[of _ "Some 2"] load_node_def
        extract_node_def extract_single_node_def store_parent_def delete_tree_node_def Let_def
        fun_upd_twist)

lemma reachable_c: "reachable tree_c"
proof -
  have "reachable tree_a"
    by (rule reach_insert[OF reach_init _ insert_init]) (simp add: tree_init_def)
  then have "reachable tree_b"
    by (rule reach_insert[OF _ _ insert_a]) (simp add: tree_a_def)
  then show ?thesis by (rule reach_erase[OF _ erase_b])
qed

theorem reachable_bst_witness:
  "reachable tree_c
   \<and> (\<exists>T. wf_tree tree_c T \<and> bst T \<and> distinct (vals T) \<and> sorted_wrt (<) (vals T)
           \<and> inorder_traversal tree_c = Some (Inr (vals T))
           \<and> (\<forall>v a. a \<notin> dom (tree_heap tree_c) \<longrightarrow>
                 (\<exists>b t'. insert_tree a v tree_c = Some (Inr (b, t')) \<and> reachable t'))
           \<and> (\<forall>v. \<exists>t'. erase v tree_c = Some (Inr t') \<and> reachable t'))"
  using reachable_bst[OF reachable_c] reachable_c by (intro conjI)

section \<open>Erasing a node with two children\<close>

text \<open>
  \<open>find_sub T v\<close> is the subtree whose root holds \<open>v\<close>, \<open>replace_sub T v S\<close> puts \<open>S\<close>
  in its place, and \<open>parent_of T v par\<close> is the parent pointer of that root.
\<close>

fun find_sub :: "('a::linorder) atree \<Rightarrow> 'a \<Rightarrow> 'a atree" where
  "find_sub Tip v = Tip"
| "find_sub (Br l a w r) v =
     (if v < w then find_sub l v else if w < v then find_sub r v else Br l a w r)"

fun replace_sub :: "('a::linorder) atree \<Rightarrow> 'a \<Rightarrow> 'a atree \<Rightarrow> 'a atree" where
  "replace_sub Tip v S = Tip"
| "replace_sub (Br l a w r) v S =
     (if v < w then Br (replace_sub l v S) a w r
      else if w < v then Br l a w (replace_sub r v S)
      else S)"

fun parent_of :: "('a::linorder) atree \<Rightarrow> 'a \<Rightarrow> addr option \<Rightarrow> addr option" where
  "parent_of Tip v par = par"
| "parent_of (Br l a w r) v par =
     (if v < w then parent_of l v (Some a) else if w < v then parent_of r v (Some a) else par)"

lemma del_replace_sub: "del v T = replace_sub T v (del_root (find_sub T v))"
  by (induction T) auto

lemma find_sub_lookup: "find_sub T v = Br l p w r \<Longrightarrow> lookup T v = Some p \<and> w = v"
  by (induction T) (auto split: if_splits)

lemma find_sub_addrs: "set (addrs (find_sub T v)) \<subseteq> set (addrs T)"
  by (induction T) auto

lemma find_sub_distinct: "distinct (addrs T) \<Longrightarrow> distinct (addrs (find_sub T v))"
  by (induction T) auto

lemma find_sub_tree_at:
  "tree_at h q par T \<Longrightarrow> find_sub T v = Br l p w r \<Longrightarrow>
   tree_at h (Some p) (parent_of T v par) (Br l p w r)"
proof (induction T arbitrary: q par)
  case Tip
  then show ?case by simp
next
  case (Br tl a x tr)
  from Br.prems(1) obtain n where n: "tree_at h (left n) (Some a) tl" "tree_at h (right n) (Some a) tr"
    and "h a = Some n"
    by auto
  consider (L) "v < x" | (R) "\<not> v < x" "x < v" | (E) "\<not> v < x" "\<not> x < v" by blast
  then show ?case
  proof cases
    case L
    then show ?thesis using Br.IH(1)[OF n(1)] Br.prems(2) by simp
  next
    case R
    then show ?thesis using Br.IH(2)[OF n(2)] Br.prems(2) by simp
  next
    case E
    then show ?thesis using Br.prems by auto
  qed
qed

lemma replace_sub_tree_at:
  "tree_at h q par (replace_sub T v S) \<Longrightarrow> find_sub T v \<noteq> Tip \<Longrightarrow>
   tree_at h (root_ptr S) (parent_of T v par) S"
proof (induction T arbitrary: q par)
  case Tip
  then show ?case by simp
next
  case (Br tl a x tr)
  consider (L) "v < x" | (R) "\<not> v < x" "x < v" | (E) "\<not> v < x" "\<not> x < v" by blast
  then show ?case
  proof cases
    case L
    with Br.prems(1) obtain n where "h a = Some n"
      and "tree_at h (left n) (Some a) (replace_sub tl v S)" by auto
    then show ?thesis using Br.IH(1) Br.prems(2) L by simp
  next
    case R
    with Br.prems(1) obtain n where "h a = Some n"
      and "tree_at h (right n) (Some a) (replace_sub tr v S)" by auto
    then show ?thesis using Br.IH(2) Br.prems(2) R by simp
  next
    case E
    then have "tree_at h q par S" using Br.prems(1) by simp
    then show ?thesis using E tree_at_root_ptr by fastforce
  qed
qed

lemma find_sub_at_root:
  assumes "find_sub T v = Br l p w r" "root_ptr T = Some p" "distinct (addrs T)"
  shows "T = Br l p w r"
proof (cases T)
  case Tip
  then show ?thesis using assms(1) by simp
next
  case (Br tl a x tr)
  then have a: "a = p" using assms(2) by simp
  have "p \<in> set (addrs (find_sub tl v)) \<Longrightarrow> False"
    using find_sub_addrs[of tl v] assms(3) Br a by auto
  moreover have "p \<in> set (addrs (find_sub tr v)) \<Longrightarrow> False"
    using find_sub_addrs[of tr v] assms(3) Br a by auto
  ultimately show ?thesis using assms(1) Br by (auto split: if_splits)
qed

lemma split_min_node:
  "tree_at h q par (Br l a v r) \<Longrightarrow> split_min l r a v = (m, mv, R') \<Longrightarrow>
   \<exists>nm. h m = Some nm \<and> value_v nm = mv \<and> left nm = None"
proof (induction l arbitrary: q par a v r R')
  case Tip
  then show ?case by auto
next
  case (Br ll b w lr)
  from Br.prems(1) obtain n where "h a = Some n"
    and n: "tree_at h (left n) (Some a) (Br ll b w lr)" by auto
  obtain l' where sm: "split_min ll lr b w = (m, mv, l')"
    using Br.prems(2) by (auto split: prod.splits)
  from Br.IH(1)[OF n sm] show ?case .
qed

lemma split_min_root:
  "split_min l r a v = (m, mv, R') \<Longrightarrow> m \<noteq> a \<Longrightarrow> root_ptr R' = Some a"
  by (cases l) (auto split: prod.splits)

text \<open>
  Claim C3. Let \<open>v\<close> be stored in the node \<open>p\<close> of a well-formed tree, with a left
  subtree \<open>l\<close> and a right subtree rooted at \<open>c\<close>. Then \<open>erase v\<close> returns, and
  \<^item> the loop of \<open>extract_min_node\<close> started at \<open>p\<close>'s right child ends at \<open>m\<close>, the leftmost
    node of the right subtree (it has no left child and holds the least value \<open>mv\<close> of
    that subtree): the in-order successor;
  \<^item> \<open>extract_min_node\<close> detaches \<open>m\<close> with \<open>extract_single_node\<close> when \<open>m\<close> has a right
    child and with \<open>extract_leaf\<close> otherwise;
  \<^item> the tree afterwards is the tree before with the subtree at \<open>p\<close> replaced by the
    node \<open>m\<close>, still holding \<open>mv\<close>, over \<open>l\<close> and the rest \<open>r'\<close> of the right subtree:
    \<open>m\<close> has \<open>p\<close>'s former parent pointer and left child, and as right child the root of
    \<open>r'\<close>, which is \<open>p\<close>'s former right child unless that was \<open>m\<close> itself;
  \<^item> the allocated nodes are those before without \<open>p\<close>: nothing is allocated;
  \<^item> if \<open>p\<close> was the root, \<open>m\<close> is the root afterwards.
\<close>

theorem erase_two_children:
  assumes "wf_tree t T" "find_sub T v = Br l p w (Br rl c x rr)" "l \<noteq> Tip"
    and "split_min rl rr c x = (m, mv, r')"
  shows "\<exists>t' t1 n0 nm nm'.
           erase v t = Some (Inr t')
         \<and> wf_tree t' (replace_sub T v (Br l m mv r'))
         \<and> tree_heap t p = Some n0 \<and> value_v n0 = v \<and> left n0 = root_ptr l \<and> right n0 = Some c
         \<and> min_node_loop (tree_heap t) (right n0) = Some (Inr (Some m))
         \<and> tree_heap t m = Some nm \<and> value_v nm = mv \<and> left nm = None
         \<and> (if right nm \<noteq> None then extract_single_node (Some m) t
             else extract_leaf (Some m) t) = Inr t1
         \<and> extract_min_node (right n0) t = Some (Inr (Some m, t1))
         \<and> tree_heap t' m = Some nm' \<and> value_v nm' = mv \<and> parent nm' = parent n0
         \<and> left nm' = left n0 \<and> right nm' = root_ptr r'
         \<and> (m \<noteq> c \<longrightarrow> right nm' = right n0)
         \<and> dom (tree_heap t') = dom (tree_heap t) - {p}
         \<and> (root t = Some p \<longrightarrow> root t' = Some m)"
proof -
  let ?h = "tree_heap t" let ?r = "Br rl c x rr" let ?S = "Br l m mv r'"
  let ?par = "parent_of T v None"
  from assms(1) have T: "tree_at ?h (root t) None T" and d: "distinct (addrs T)"
    by (simp_all add: wf_tree_def)
  from find_sub_lookup[OF assms(2)] have lk: "lookup T v = Some p" and wv: "w = v" by simp_all
  from erase_present[OF assms(1) lk] obtain t' where
    t': "erase v t = Some (Inr t')" "wf_tree t' (del v T)"
    "dom (tree_heap t') = dom ?h - {p}"
    by blast
  obtain ll b lw lr where l: "l = Br ll b lw lr" using assms(3) by (cases l) auto
  have dr: "del_root (Br l p w ?r) = ?S" using l assms(4) by simp
  have dl: "del v T = replace_sub T v ?S" using del_replace_sub[of v T] assms(2) dr by simp
  have wf': "wf_tree t' (replace_sub T v ?S)" using t'(2) dl by simp
  have tp: "tree_at ?h (Some p) ?par (Br l p w ?r)" by (rule find_sub_tree_at[OF T assms(2)])
  then obtain n0 where n0: "?h p = Some n0" "value_v n0 = w" "parent n0 = ?par"
    "tree_at ?h (left n0) (Some p) l" "tree_at ?h (right n0) (Some p) ?r"
    by auto
  have ln: "left n0 = root_ptr l" using n0(4) by (rule tree_at_root_ptr)
  have rn: "right n0 = Some c" using n0(5) by simp
  have tr: "tree_at ?h (Some c) (Some p) ?r" using n0(5) rn by simp
  have ml: "min_node_loop ?h (Some c) = Some (Inr (Some m))"
    using min_node_loop_split_min[OF tr] assms(4) by simp
  have "distinct (addrs (find_sub T v))" by (rule find_sub_distinct[OF d])
  then have ds: "distinct (addrs ?r)" "p \<notin> set (addrs ?r)" using assms(2) by auto
  have slot: "left n0 = Some c \<or> right n0 = Some c" using rn by simp
  from detach_min[OF tr ds n0(1) slot assms(4)] obtain nm t1 where
    nm: "?h m = Some nm" "left nm = None"
    "(if right nm \<noteq> None then extract_single_node (Some m) t else extract_leaf (Some m) t) = Inr t1"
    by blast
  from split_min_node[OF tr assms(4)] nm(1) have mv: "value_v nm = mv" by auto
  have em: "extract_min_node (Some c) t = Some (Inr (Some m, t1))"
    using ml nm(1,3) by (auto simp: extract_min_node_def load_node_def split: if_splits)
  from wf' have T': "tree_at (tree_heap t') (root t') None (replace_sub T v ?S)"
    by (simp add: wf_tree_def)
  have ne: "find_sub T v \<noteq> Tip" using assms(2) by simp
  from replace_sub_tree_at[OF T' ne] have "tree_at (tree_heap t') (Some m) ?par ?S" by simp
  then obtain nm' where nm': "tree_heap t' m = Some nm'" "value_v nm' = mv" "parent nm' = ?par"
    "tree_at (tree_heap t') (left nm') (Some m) l" "tree_at (tree_heap t') (right nm') (Some m) r'"
    by auto
  have ln': "left nm' = root_ptr l" using nm'(4) by (rule tree_at_root_ptr)
  have rn': "right nm' = root_ptr r'" using nm'(5) by (rule tree_at_root_ptr)
  have mc: "m \<noteq> c \<longrightarrow> right nm' = right n0"
    using split_min_root[OF assms(4)] rn rn' by simp
  have rt: "root t = Some p \<longrightarrow> root t' = Some m"
  proof
    assume "root t = Some p"
    then have "root_ptr T = Some p" using tree_at_root_ptr[OF T] by simp
    from find_sub_at_root[OF assms(2) this d] have "T = Br l p w ?r" .
    then have "replace_sub T v ?S = ?S" using wv by simp
    then show "root t' = Some m" using tree_at_root_ptr[OF T'] by simp
  qed
  show ?thesis
    using t'(1,3) wf' n0(1,2,3) wv ln rn ml nm mv em nm'(1,2,3) ln' rn' mc rt
    by (intro exI[of _ t'] exI[of _ t1] exI[of _ n0] exI[of _ nm] exI[of _ nm']) simp
qed

theorem erase_two_children_witness:
  "wf_tree tree5 atree5
   \<and> find_sub atree5 5 = Br (Br (Br Tip 4 1 Tip) 2 3 (Br Tip 5 4 Tip)) 1 5 (Br Tip 3 8 Tip)
   \<and> split_min Tip Tip 3 (8::int) = (3, 8, Tip)
   \<and> root tree5 = Some 1
   \<and> (\<exists>t' t1 n0 nm nm'.
           erase 5 tree5 = Some (Inr t')
         \<and> wf_tree t' (replace_sub atree5 5 (Br (Br (Br Tip 4 1 Tip) 2 3 (Br Tip 5 4 Tip)) 3 8 Tip))
         \<and> tree_heap tree5 1 = Some n0 \<and> value_v n0 = 5 \<and> right n0 = Some 3
         \<and> min_node_loop (tree_heap tree5) (right n0) = Some (Inr (Some 3))
         \<and> tree_heap tree5 3 = Some nm \<and> value_v nm = 8 \<and> left nm = None
         \<and> (if right nm \<noteq> None then extract_single_node (Some 3) tree5
             else extract_leaf (Some 3) tree5) = Inr t1
         \<and> extract_min_node (right n0) tree5 = Some (Inr (Some 3, t1))
         \<and> tree_heap t' 3 = Some nm' \<and> value_v nm' = 8 \<and> parent nm' = parent n0
         \<and> left nm' = left n0 \<and> right nm' = None
         \<and> dom (tree_heap t') = dom (tree_heap tree5) - {1}
         \<and> root t' = Some 3)"
proof -
  have f: "find_sub atree5 5 = Br (Br (Br Tip 4 1 Tip) 2 3 (Br Tip 5 4 Tip)) 1 5 (Br Tip 3 8 Tip)"
    by (simp add: atree5_def)
  have s: "split_min Tip Tip 3 (8::int) = (3, 8, Tip)" by simp
  have l: "Br (Br Tip 4 (1::int) Tip) 2 3 (Br Tip 5 4 Tip) \<noteq> Tip" by simp
  have r: "root tree5 = Some 1" by (simp add: tree5_def)
  from erase_two_children[OF wf_tree5 f l s] obtain t' t1 n0 nm nm' where
    e: "erase 5 tree5 = Some (Inr t')"
    "wf_tree t' (replace_sub atree5 5 (Br (Br (Br Tip 4 1 Tip) 2 3 (Br Tip 5 4 Tip)) 3 8 Tip))"
    "tree_heap tree5 1 = Some n0" "value_v n0 = 5"
    "left n0 = root_ptr (Br (Br Tip 4 (1::int) Tip) 2 3 (Br Tip 5 4 Tip))" "right n0 = Some 3"
    "min_node_loop (tree_heap tree5) (right n0) = Some (Inr (Some 3))"
    "tree_heap tree5 3 = Some nm" "value_v nm = 8" "left nm = None"
    "(if right nm \<noteq> None then extract_single_node (Some 3) tree5
             else extract_leaf (Some 3) tree5) = Inr t1"
    "extract_min_node (right n0) tree5 = Some (Inr (Some 3, t1))"
    "tree_heap t' 3 = Some nm'" "value_v nm' = 8" "parent nm' = parent n0"
    "left nm' = left n0" "right nm' = root_ptr (Tip :: int atree)"
    "dom (tree_heap t') = dom (tree_heap tree5) - {1}"
    "root tree5 = Some 1 \<longrightarrow> root t' = Some 3"
    by (elim exE conjE) (rule that; assumption)
  have "right nm' = None" using e(17) by simp
  moreover have "root t' = Some 3" using e(19) r by simp
  ultimately have "\<exists>t' t1 n0 nm nm'.
           erase 5 tree5 = Some (Inr t')
         \<and> wf_tree t' (replace_sub atree5 5 (Br (Br (Br Tip 4 1 Tip) 2 3 (Br Tip 5 4 Tip)) 3 8 Tip))
         \<and> tree_heap tree5 1 = Some n0 \<and> value_v n0 = 5 \<and> right n0 = Some 3
         \<and> min_node_loop (tree_heap tree5) (right n0) = Some (Inr (Some 3))
         \<and> tree_heap tree5 3 = Some nm \<and> value_v nm = 8 \<and> left nm = None
         \<and> (if right nm \<noteq> None then extract_single_node (Some 3) tree5
             else extract_leaf (Some 3) tree5) = Inr t1
         \<and> extract_min_node (right n0) tree5 = Some (Inr (Some 3, t1))
         \<and> tree_heap t' 3 = Some nm' \<and> value_v nm' = 8 \<and> parent nm' = parent n0
         \<and> left nm' = left n0 \<and> right nm' = None
         \<and> dom (tree_heap t') = dom (tree_heap tree5) - {1}
         \<and> root t' = Some 3"
    using e(1-4,6-16,18)
    by (intro exI[of _ t'] exI[of _ t1] exI[of _ n0] exI[of _ nm] exI[of _ nm'] conjI)
  with wf_tree5 f s r show ?thesis by (intro conjI)
qed

section \<open>Concrete runs\<close>

lemma deck0_sort_run:
  "(case stableSelectionSort deck0 of Some (Inr d') \<Rightarrow> traverse d' | _ \<Rightarrow> None)
   = Some (Inr [\<lparr>suite = SPADE, rank = TWO\<rparr>, \<lparr>suite = HEART, rank = THREE\<rparr>,
                \<lparr>suite = CLUB, rank = THREE\<rparr>])"
  by code_simp

lemma deck0_popFront_run:
  "(case popFront deck0 of Inr d' \<Rightarrow> (traverse d', deck_size d') | Inl e \<Rightarrow> (None, 0))
   = (Some (Inr [\<lparr>suite = SPADE, rank = TWO\<rparr>, \<lparr>suite = CLUB, rank = THREE\<rparr>]), 2)"
  by code_simp

lemma deck0_shuffle_run:
  "(case shuffle draw_last deck0 of Some (Inr d') \<Rightarrow> traverse d' | _ \<Rightarrow> None)
   = Some (Inr [\<lparr>suite = CLUB, rank = THREE\<rparr>, \<lparr>suite = HEART, rank = THREE\<rparr>,
                \<lparr>suite = SPADE, rank = TWO\<rparr>])"
  by code_simp

lemma standard_deck_run:
  "(case generateStandardDeck 0 Suc of Inr d \<Rightarrow> (traverse d, deck_size d) | Inl e \<Rightarrow> (None, 0))
   = (Some (Inr (rev standard_order)), 52)"
  by code_simp

lemma tree5_erase_run:
  "(case erase 5 tree5 of Some (Inr t') \<Rightarrow> (inorder_traversal t', size_tree t', root t') | _ \<Rightarrow> (None, 0, None))
   = (Some (Inr [1, 3, 4, 8]), 4, Some 3)"
  by code_simp

text \<open>Inserting 5, 3, 8, 1, 4 and erasing them again empties the tree.\<close>

fun run_inserts :: "(addr \<times> 'a) list \<Rightarrow> ('a::linorder) tree \<Rightarrow> (error + 'a tree) option" where
  "run_inserts [] t = Some (Inr t)"
| "run_inserts ((a, v) # xs) t =
     (case insert_tree a v t of None \<Rightarrow> None | Some (Inl e) \<Rightarrow> Some (Inl e)
      | Some (Inr (b, t')) \<Rightarrow> run_inserts xs t')"

fun run_erases :: "'a list \<Rightarrow> ('a::linorder) tree \<Rightarrow> (error + 'a tree) option" where
  "run_erases [] t = Some (Inr t)"
| "run_erases (v # vs) t =
     (case erase v t of None \<Rightarrow> None | Some (Inl e) \<Rightarrow> Some (Inl e)
      | Some (Inr t') \<Rightarrow> run_erases vs t')"

lemma insert_run:
  "(case run_inserts [(1, 5), (2, 3), (3, 8), (4, 1), (5, 4)] (tree_init :: int tree) of
      Some (Inr t) \<Rightarrow> (inorder_traversal t, size_tree t, root t) | _ \<Rightarrow> (None, 0, None))
   = (Some (Inr [1, 3, 4, 5, 8]), 5, Some 1)"
  by code_simp

lemma round_trip_run:
  "(case run_inserts [(1, 5), (2, 3), (3, 8), (4, 1), (5, 4)] (tree_init :: int tree) of
      Some (Inr t) \<Rightarrow>
        (case run_erases [5, 3, 8, 1, 4] t of
           Some (Inr t') \<Rightarrow> Some (empty_tree t', size_tree t', root t') | _ \<Rightarrow> None)
    | _ \<Rightarrow> None)
   = Some (True, 0, None)"
  by code_simp

end
